theory Spec2Isabelle
  imports Main "HOL-Library.Word"
begin

unbundle bit_operations_syntax

section \<open>Data model\<close>

text \<open>
  The validator of \<^verbatim>\<open>src/utf8_valid.h\<close> works on a buffer of \<^verbatim>\<open>unsigned char\<close>.
  A byte is an 8-bit word; \<^verbatim>\<open>size_t\<close> is a 64-bit word and \<^verbatim>\<open>int\<close> a 32-bit word
  (the LP64 data model of the x86-64 hosts the AVX2 path is written for), both with
  wrap-around: an overflow of the \<^verbatim>\<open>int\<close>, which C leaves undefined, is given the
  two's-complement result of the target.  A 256-bit register \<^verbatim>\<open>simde__m256i\<close> is the list of its 32 byte
  lanes, lane 0 first (the byte at the lowest address of an unaligned load).
\<close>

type_synonym byte = "8 word"
type_synonym size_t = "64 word"
type_synonym c_int = "32 word"
type_synonym m256i = "byte list"

subsection \<open>The lookup tables\<close>

definition first_len_tbl :: m256i where
  "first_len_tbl =
    [0, 0, 0, 0, 0, 0, 0, 0, 0, 0, 0, 0, 1, 1, 2, 3,
     0, 0, 0, 0, 0, 0, 0, 0, 0, 0, 0, 0, 1, 1, 2, 3]"

definition first_range_tbl :: m256i where
  "first_range_tbl =
    [0, 0, 0, 0, 0, 0, 0, 0, 0, 0, 0, 0, 8, 8, 8, 8,
     0, 0, 0, 0, 0, 0, 0, 0, 0, 0, 0, 0, 8, 8, 8, 8]"

definition range_min_tbl :: m256i where
  "range_min_tbl =
    [0x00, 0x80, 0x80, 0x80, 0xA0, 0x80, 0x90, 0x80,
     0xC2, 0x7F, 0x7F, 0x7F, 0x7F, 0x7F, 0x7F, 0x7F,
     0x00, 0x80, 0x80, 0x80, 0xA0, 0x80, 0x90, 0x80,
     0xC2, 0x7F, 0x7F, 0x7F, 0x7F, 0x7F, 0x7F, 0x7F]"

definition range_max_tbl :: m256i where
  "range_max_tbl =
    [0x7F, 0xBF, 0xBF, 0xBF, 0xBF, 0x9F, 0xBF, 0x8F,
     0xF4, 0x80, 0x80, 0x80, 0x80, 0x80, 0x80, 0x80,
     0x7F, 0xBF, 0xBF, 0xBF, 0xBF, 0x9F, 0xBF, 0x8F,
     0xF4, 0x80, 0x80, 0x80, 0x80, 0x80, 0x80, 0x80]"

definition df_ee_tbl :: m256i where
  "df_ee_tbl =
    [0, 2, 0, 0, 0, 0, 0, 0, 0, 0, 0, 0, 0, 0, 3, 0,
     0, 2, 0, 0, 0, 0, 0, 0, 0, 0, 0, 0, 0, 0, 3, 0]"

definition ef_fe_tbl :: m256i where
  "ef_fe_tbl =
    [0, 3, 0, 0, 0, 4, 0, 0, 0, 0, 0, 0, 0, 0, 0, 0,
     0, 3, 0, 0, 0, 4, 0, 0, 0, 0, 0, 0, 0, 0, 0, 0]"

subsection \<open>The 256-bit operations\<close>

text \<open>
  Modelled from the spec: the header \<^verbatim>\<open>simde_avx2/avx2.h\<close> that declares the
  \<^verbatim>\<open>simde_mm256_*\<close> operations is not among the sources.  Each operation below is
  the one section 6 of the specification lists (unaligned load, byte shuffle by 4-bit index
  where an index with bit 7 set yields 0, signed compare-greater, unsigned saturating
  add and sub, wrapping add and sub, or, and, 16-bit logical right shift, 128-bit
  cross-permutation with immediate selector, byte shift of a concatenation, whole-vector
  zero test, 32-bit extract), with the AVX2 behaviour on the two 128-bit halves.
\<close>

definition mm256_set1_epi8 :: "byte \<Rightarrow> m256i" where
  "mm256_set1_epi8 c = replicate 32 c"

definition mm256_loadu_si256 :: "byte list \<Rightarrow> m256i" where
  "mm256_loadu_si256 p = take 32 p"

definition mm256_and_si256 :: "m256i \<Rightarrow> m256i \<Rightarrow> m256i" where
  "mm256_and_si256 a b = map2 (\<lambda>x y. x AND y) a b"

definition mm256_or_si256 :: "m256i \<Rightarrow> m256i \<Rightarrow> m256i" where
  "mm256_or_si256 a b = map2 (\<lambda>x y. x OR y) a b"

definition mm256_add_epi8 :: "m256i \<Rightarrow> m256i \<Rightarrow> m256i" where
  "mm256_add_epi8 a b = map2 (\<lambda>x y. x + y) a b"

definition mm256_sub_epi8 :: "m256i \<Rightarrow> m256i \<Rightarrow> m256i" where
  "mm256_sub_epi8 a b = map2 (\<lambda>x y. x - y) a b"

definition adds_u8 :: "byte \<Rightarrow> byte \<Rightarrow> byte" where
  "adds_u8 x y = (if 255 < unat x + unat y then 0xFF else x + y)"

definition subs_u8 :: "byte \<Rightarrow> byte \<Rightarrow> byte" where
  "subs_u8 x y = (if x < y then 0 else x - y)"

definition mm256_adds_epu8 :: "m256i \<Rightarrow> m256i \<Rightarrow> m256i" where
  "mm256_adds_epu8 a b = map2 adds_u8 a b"

definition mm256_subs_epu8 :: "m256i \<Rightarrow> m256i \<Rightarrow> m256i" where
  "mm256_subs_epu8 a b = map2 subs_u8 a b"

definition cmpgt_i8 :: "byte \<Rightarrow> byte \<Rightarrow> byte" where
  "cmpgt_i8 x y = (if y <s x then 0xFF else 0)"

definition mm256_cmpgt_epi8 :: "m256i \<Rightarrow> m256i \<Rightarrow> m256i" where
  "mm256_cmpgt_epi8 a b = map2 cmpgt_i8 a b"

definition mm256_testz_si256 :: "m256i \<Rightarrow> m256i \<Rightarrow> bool" where
  "mm256_testz_si256 a b = list_all (\<lambda>x. x = 0) (map2 (\<lambda>x y. x AND y) a b)"

text \<open>Logical right shift of the sixteen 16-bit lanes (little-endian byte pairs).\<close>

fun srli16_lanes :: "nat \<Rightarrow> byte list \<Rightarrow> byte list" where
  "srli16_lanes n (lo # hi # rest) =
     (let w = drop_bit n (word_cat hi lo :: 16 word)
      in ucast w # ucast (drop_bit 8 w) # srli16_lanes n rest)"
| "srli16_lanes n rest = []"

definition mm256_srli_epi16 :: "m256i \<Rightarrow> nat \<Rightarrow> m256i" where
  "mm256_srli_epi16 a n = srli16_lanes n a"

text \<open>Byte shuffle, separately in each 128-bit half.\<close>

definition shuffle_byte :: "byte list \<Rightarrow> byte \<Rightarrow> byte" where
  "shuffle_byte a i = (if bit i 7 then 0 else a ! unat (i AND 0x0F))"

definition mm256_shuffle_epi8 :: "m256i \<Rightarrow> m256i \<Rightarrow> m256i" where
  "mm256_shuffle_epi8 a b =
     map (shuffle_byte (take 16 a)) (take 16 b) @ map (shuffle_byte (drop 16 a)) (drop 16 b)"

text \<open>Selection of two 128-bit halves out of the four of \<open>a\<close> and \<open>b\<close>.\<close>

definition select4 :: "m256i \<Rightarrow> m256i \<Rightarrow> nat \<Rightarrow> byte list" where
  "select4 a b c =
     (if c div 8 mod 2 = 1 then replicate 16 0
      else if c mod 4 = 0 then take 16 a
      else if c mod 4 = 1 then drop 16 a
      else if c mod 4 = 2 then take 16 b
      else drop 16 b)"

definition mm256_permute2x128_si256 :: "m256i \<Rightarrow> m256i \<Rightarrow> nat \<Rightarrow> m256i" where
  "mm256_permute2x128_si256 a b imm = select4 a b (imm mod 16) @ select4 a b (imm div 16)"

text \<open>
  In each 128-bit half: the 32-byte concatenation with \<open>a\<close>'s half above \<open>b\<close>'s half,
  shifted right by \<open>n\<close> bytes, low 16 bytes kept.
\<close>

definition alignr_lane :: "byte list \<Rightarrow> byte list \<Rightarrow> nat \<Rightarrow> byte list" where
  "alignr_lane a b n = take 16 (drop n (b @ a @ replicate 16 0))"

definition mm256_alignr_epi8 :: "m256i \<Rightarrow> m256i \<Rightarrow> nat \<Rightarrow> m256i" where
  "mm256_alignr_epi8 a b n =
     alignr_lane (take 16 a) (take 16 b) n @ alignr_lane (drop 16 a) (drop 16 b) n"

text \<open>The 32-bit lane \<open>i\<close>, its four bytes in memory order (little-endian).\<close>

definition mm256_extract_epi32 :: "m256i \<Rightarrow> nat \<Rightarrow> 32 word" where
  "mm256_extract_epi32 a i =
     word_cat (word_cat (a ! (4 * i + 3)) (a ! (4 * i + 2)) :: 16 word)
              (word_cat (a ! (4 * i + 1)) (a ! (4 * i)) :: 16 word)"

text \<open>Byte \<open>j\<close> of a 32-bit integer in memory, as \<^verbatim>\<open>((const int8_t *)&token4)[j]\<close> reads it.\<close>

definition int32_byte :: "32 word \<Rightarrow> nat \<Rightarrow> byte" where
  "int32_byte w j = ucast (drop_bit (8 * j) w)"

subsection \<open>The helpers of the vector path\<close>

definition push_last_byte_of_a_to_b :: "m256i \<Rightarrow> m256i \<Rightarrow> m256i" where
  "push_last_byte_of_a_to_b a b =
     mm256_alignr_epi8 b (mm256_permute2x128_si256 a b 0x21) 15"

definition push_last_2bytes_of_a_to_b :: "m256i \<Rightarrow> m256i \<Rightarrow> m256i" where
  "push_last_2bytes_of_a_to_b a b =
     mm256_alignr_epi8 b (mm256_permute2x128_si256 a b 0x21) 14"

definition push_last_3bytes_of_a_to_b :: "m256i \<Rightarrow> m256i \<Rightarrow> m256i" where
  "push_last_3bytes_of_a_to_b a b =
     mm256_alignr_epi8 b (mm256_permute2x128_si256 a b 0x21) 13"

section \<open>The scalar validator\<close>

text \<open>
  \<^verbatim>\<open>utf8_valid_naive(data, len, error_index)\<close>: the buffer is the list of its \<open>len\<close>
  bytes, the pointer \<^verbatim>\<open>data\<close> advances by dropping bytes, \<^verbatim>\<open>err_idx\<close> is the
  \<^verbatim>\<open>size_t\<close> counter.  The third argument is the content of \<^verbatim>\<open>*error_index\<close> before
  the call; the result is the returned boolean and the content of \<^verbatim>\<open>*error_index\<close>
  after it.  The casts to \<^verbatim>\<open>signed char\<close> make the comparisons with \<open>0xBF\<close> signed.
\<close>

function utf8_valid_naive_loop :: "byte list \<Rightarrow> size_t \<Rightarrow> size_t \<Rightarrow> bool \<times> size_t" where
  "utf8_valid_naive_loop data err_idx error_index =
     (if data = [] then (True, error_index)
      else
        let byte1 = data ! 0 in
        if byte1 \<le> 0x7F then
          utf8_valid_naive_loop (drop 1 data) (err_idx + 1) error_index
        else if 2 \<le> length data \<and> 0xC2 \<le> byte1 \<and> byte1 \<le> 0xDF \<and> data ! 1 \<le>s 0xBF then
          utf8_valid_naive_loop (drop 2 data) (err_idx + 2) error_index
        else if 3 \<le> length data then
          let byte2 = data ! 1;
              byte2_ok = (byte2 \<le>s 0xBF);
              byte3_ok = (data ! 2 \<le>s 0xBF)
          in
            if byte2_ok \<and> byte3_ok \<and>
               ((byte1 = 0xE0 \<and> 0xA0 \<le> byte2) \<or>
                (0xE1 \<le> byte1 \<and> byte1 \<le> 0xEC) \<or>
                (byte1 = 0xED \<and> byte2 \<le> 0x9F) \<or>
                (0xEE \<le> byte1 \<and> byte1 \<le> 0xEF)) then
              utf8_valid_naive_loop (drop 3 data) (err_idx + 3) error_index
            else if 4 \<le> length data then
              let byte4_ok = (data ! 3 \<le>s 0xBF) in
                if byte2_ok \<and> byte3_ok \<and> byte4_ok \<and>
                   ((byte1 = 0xF0 \<and> 0x90 \<le> byte2) \<or>
                    (0xF1 \<le> byte1 \<and> byte1 \<le> 0xF3) \<or>
                    (byte1 = 0xF4 \<and> byte2 \<le> 0x8F)) then
                  utf8_valid_naive_loop (drop 4 data) (err_idx + 4) error_index
                else (False, err_idx)
            else (False, err_idx)
        else (False, err_idx))"
  by pat_completeness auto
termination
  by (relation "measure (\<lambda>(data, err_idx, error_index). length data)") auto

declare utf8_valid_naive_loop.simps [simp del]

definition utf8_valid_naive :: "byte list \<Rightarrow> size_t \<Rightarrow> bool \<times> size_t" where
  "utf8_valid_naive data error_index = utf8_valid_naive_loop data 0 error_index"

section \<open>The vector validator\<close>

subsection \<open>One 32-byte block\<close>

text \<open>The body of the vector loop, in the order of the source.\<close>

definition high_nibbles_of :: "m256i \<Rightarrow> m256i" where
  "high_nibbles_of input =
     mm256_and_si256 (mm256_srli_epi16 input 4) (mm256_set1_epi8 0x0F)"

definition first_len_of :: "m256i \<Rightarrow> m256i" where
  "first_len_of input = mm256_shuffle_epi8 first_len_tbl (high_nibbles_of input)"

text \<open>The range index \<^verbatim>\<open>range\<close> (here \<open>rng\<close>) before the adjustment for the special first bytes.\<close>

definition range_index :: "m256i \<Rightarrow> m256i \<Rightarrow> m256i" where
  "range_index prev_first_len input =
     (let high_nibbles = high_nibbles_of input;
          first_len = mm256_shuffle_epi8 first_len_tbl high_nibbles;
          rng = mm256_shuffle_epi8 first_range_tbl high_nibbles;
          rng = mm256_or_si256 rng (push_last_byte_of_a_to_b prev_first_len first_len);
          tmp1 = push_last_2bytes_of_a_to_b prev_first_len first_len;
          tmp2 = mm256_subs_epu8 tmp1 (mm256_set1_epi8 1);
          rng = mm256_or_si256 rng tmp2;
          tmp1 = push_last_3bytes_of_a_to_b prev_first_len first_len;
          tmp2 = mm256_subs_epu8 tmp1 (mm256_set1_epi8 2)
      in mm256_or_si256 rng tmp2)"

text \<open>The adjustment \<^verbatim>\<open>range2\<close> for the byte after E0, ED, F0 and F4.\<close>

definition range_adjust :: "m256i \<Rightarrow> m256i \<Rightarrow> m256i" where
  "range_adjust prev_input input =
     (let shift1 = push_last_byte_of_a_to_b prev_input input;
          pos = mm256_sub_epi8 shift1 (mm256_set1_epi8 0xEF);
          tmp1 = mm256_subs_epu8 pos (mm256_set1_epi8 240);
          range2 = mm256_shuffle_epi8 df_ee_tbl tmp1;
          tmp2 = mm256_adds_epu8 pos (mm256_set1_epi8 112)
      in mm256_add_epi8 range2 (mm256_shuffle_epi8 ef_fe_tbl tmp2))"

text \<open>The check of the value ranges: the vector \<^verbatim>\<open>error\<close>.\<close>

definition range_error :: "m256i \<Rightarrow> m256i \<Rightarrow> m256i" where
  "range_error rng input =
     (let minv = mm256_shuffle_epi8 range_min_tbl rng;
          maxv = mm256_shuffle_epi8 range_max_tbl rng;
          error = mm256_cmpgt_epi8 minv input
      in mm256_or_si256 error (mm256_cmpgt_epi8 input maxv))"

definition block_error :: "m256i \<Rightarrow> m256i \<Rightarrow> m256i \<Rightarrow> m256i" where
  "block_error prev_input prev_first_len input =
     range_error
       (mm256_add_epi8 (range_index prev_first_len input) (range_adjust prev_input input))
       input"

subsection \<open>The loop over the blocks\<close>

text \<open>
  The variables of \<^verbatim>\<open>utf8_valid\<close> that the vector loop changes: the cursor \<^verbatim>\<open>data\<close>
  as its offset from the start of the buffer, the remaining length, the \<^verbatim>\<open>int\<close>
  counter \<^verbatim>\<open>err_idx\<close>, and the look-behind.
\<close>

record vstate =
  data :: nat
  len :: nat
  err_idx :: c_int
  prev_input :: m256i
  prev_first_len :: m256i

function vector_loop :: "byte list \<Rightarrow> vstate \<Rightarrow> vstate" where
  "vector_loop buf st =
     (if 32 \<le> len st then
        let input = mm256_loadu_si256 (drop (data st) buf);
            first_len = first_len_of input;
            error = block_error (prev_input st) (prev_first_len st) input
        in
          if \<not> mm256_testz_si256 error error then st
          else vector_loop buf
                 \<lparr>data = data st + 32, len = len st - 32, err_idx = err_idx st + 32,
                  prev_input = input, prev_first_len = first_len\<rparr>
      else st)"
  by pat_completeness auto
termination
  by (relation "measure (\<lambda>(buf, st). len st)") auto

declare vector_loop.simps [simp del]

subsection \<open>The rewind to the previous token\<close>

definition lookahead_of :: "m256i \<Rightarrow> c_int" where
  "lookahead_of prev_in =
     (let token4 = mm256_extract_epi32 prev_in 7 in
      if (0xBF :: byte) <s int32_byte token4 3 then 1
      else if (0xBF :: byte) <s int32_byte token4 2 then 2
      else if (0xBF :: byte) <s int32_byte token4 1 then 3
      else 0)"

definition rewind :: "vstate \<Rightarrow> vstate" where
  "rewind st =
     (let lookahead = lookahead_of (prev_input st) in
      st\<lparr>data := data st - unat lookahead,
         len := len st + unat lookahead,
         err_idx := err_idx st - lookahead\<rparr>)"

subsection \<open>The top-level validator\<close>

text \<open>
  \<^verbatim>\<open>utf8_valid(data, len, error_index)\<close> on the buffer \<open>buf\<close> of \<open>len = length buf\<close>
  bytes.  \<open>err_idx2\<close> is the content of the uninitialised local \<^verbatim>\<open>err_idx2\<close> when the
  scalar validator is called; \<open>error_index\<close> is the content of \<^verbatim>\<open>*error_index\<close> before
  the call.  The sum \<^verbatim>\<open>err_idx + err_idx2 - 1\<close> converts the \<^verbatim>\<open>int\<close> to \<^verbatim>\<open>size_t\<close>.
\<close>

definition vector_phase :: "byte list \<Rightarrow> vstate" where
  "vector_phase buf =
     (let st0 = \<lparr>data = 0, len = length buf, err_idx = 1,
                prev_input = mm256_set1_epi8 0, prev_first_len = mm256_set1_epi8 0\<rparr>
      in if 32 \<le> length buf then
           let st = vector_loop buf st0 in
           if err_idx st = 1 then st else rewind st
         else st0)"

definition utf8_valid :: "byte list \<Rightarrow> size_t \<Rightarrow> size_t \<Rightarrow> bool \<times> size_t" where
  "utf8_valid buf err_idx2 error_index =
     (let st = vector_phase buf;
          (ok, err_idx2') = utf8_valid_naive (take (len st) (drop (data st) buf)) err_idx2
      in if \<not> ok then (False, scast (err_idx st) + err_idx2' - 1)
         else (True, error_index))"

section \<open>Lane-wise reading of the block check\<close>

text \<open>
  What one lane of the vector computation holds, as a function of the byte \<open>x\<close> of the
  lane and of the three bytes \<open>c3\<close>, \<open>c2\<close>, \<open>c1\<close> before it (\<open>c1\<close> nearest): the
  table look-ups of the source applied to single bytes.
\<close>

definition first_len_byte :: "byte \<Rightarrow> byte" where
  "first_len_byte b = shuffle_byte (take 16 first_len_tbl) (drop_bit 4 b)"

definition first_range_byte :: "byte \<Rightarrow> byte" where
  "first_range_byte b = shuffle_byte (take 16 first_range_tbl) (drop_bit 4 b)"

definition df_ee_byte :: "byte \<Rightarrow> byte" where
  "df_ee_byte v = shuffle_byte (take 16 df_ee_tbl) (subs_u8 (v - 0xEF) 240)"

definition ef_fe_byte :: "byte \<Rightarrow> byte" where
  "ef_fe_byte v = shuffle_byte (take 16 ef_fe_tbl) (adds_u8 (v - 0xEF) 112)"

definition lane_range :: "byte \<Rightarrow> byte \<Rightarrow> byte \<Rightarrow> byte \<Rightarrow> byte" where
  "lane_range c3 c2 c1 x =
     (((first_range_byte x OR first_len_byte c1) OR subs_u8 (first_len_byte c2) 1)
        OR subs_u8 (first_len_byte c3) 2) + (df_ee_byte c1 + ef_fe_byte c1)"

definition lane_error :: "byte \<Rightarrow> byte \<Rightarrow> byte" where
  "lane_error r x =
     cmpgt_i8 (shuffle_byte (take 16 range_min_tbl) r) x OR
     cmpgt_i8 x (shuffle_byte (take 16 range_max_tbl) r)"

text \<open>The nine ranges of the comment above \<^verbatim>\<open>_range_min_tbl\<close>, as unsigned intervals.\<close>

definition in_range :: "nat \<Rightarrow> byte \<Rightarrow> bool" where
  "in_range r x =
     (if r = 0 then x \<le> 0x7F
      else if r \<le> 3 then 0x80 \<le> x \<and> x \<le> 0xBF
      else if r = 4 then 0xA0 \<le> x \<and> x \<le> 0xBF
      else if r = 5 then 0x80 \<le> x \<and> x \<le> 0x9F
      else if r = 6 then 0x90 \<le> x \<and> x \<le> 0xBF
      else if r = 7 then 0x80 \<le> x \<and> x \<le> 0x8F
      else if r = 8 then 0xC2 \<le> x \<and> x \<le> 0xF4
      else False)"

section \<open>Well-formed UTF-8\<close>

text \<open>
  Table 3-7 of Unicode 6.0 as the specification words it: a sequence is one byte 00..7F;
  or a lead C2..DF and one byte 80..BF; or a lead E0..EF and two bytes 80..BF, the second
  restricted to A0..BF after E0 and to 80..9F after ED; or a lead F0..F4 and three bytes
  80..BF, the second restricted to 90..BF after F0 and to 80..8F after F4.  A buffer is
  well-formed when it is a concatenation of such sequences; a sequence cut by the end of
  the buffer is therefore malformed.
\<close>

fun wf_sequence :: "byte list \<Rightarrow> bool" where
  "wf_sequence [b1] = (b1 \<le> 0x7F)"
| "wf_sequence [b1, b2] = (0xC2 \<le> b1 \<and> b1 \<le> 0xDF \<and> 0x80 \<le> b2 \<and> b2 \<le> 0xBF)"
| "wf_sequence [b1, b2, b3] =
     (0xE0 \<le> b1 \<and> b1 \<le> 0xEF \<and> 0x80 \<le> b2 \<and> b2 \<le> 0xBF \<and> 0x80 \<le> b3 \<and> b3 \<le> 0xBF \<and>
      (b1 = 0xE0 \<longrightarrow> 0xA0 \<le> b2) \<and> (b1 = 0xED \<longrightarrow> b2 \<le> 0x9F))"
| "wf_sequence [b1, b2, b3, b4] =
     (0xF0 \<le> b1 \<and> b1 \<le> 0xF4 \<and> 0x80 \<le> b2 \<and> b2 \<le> 0xBF \<and> 0x80 \<le> b3 \<and> b3 \<le> 0xBF \<and>
      0x80 \<le> b4 \<and> b4 \<le> 0xBF \<and>
      (b1 = 0xF0 \<longrightarrow> 0x90 \<le> b2) \<and> (b1 = 0xF4 \<longrightarrow> b2 \<le> 0x8F))"
| "wf_sequence bs = False"

inductive well_formed :: "byte list \<Rightarrow> bool" where
  wf_empty: "well_formed []"
| wf_append: "wf_sequence q \<Longrightarrow> well_formed r \<Longrightarrow> well_formed (q @ r)"

text \<open>
  The number of bytes of the well-formed sequence at the start of \<open>d\<close>, 0 when there is
  none: the value of \<^verbatim>\<open>bytes\<close> in one iteration of the scalar loop.
\<close>

definition naive_bytes :: "byte list \<Rightarrow> nat" where
  "naive_bytes d =
     (if 1 \<le> length d \<and> wf_sequence (take 1 d) then 1
      else if 2 \<le> length d \<and> wf_sequence (take 2 d) then 2
      else if 3 \<le> length d \<and> wf_sequence (take 3 d) then 3
      else if 4 \<le> length d \<and> wf_sequence (take 4 d) then 4
      else 0)"

section \<open>The blocks of a buffer\<close>

text \<open>
  The vector loop reads block \<open>k\<close> of the buffer against the block before it, and the
  first block against 32 zero bytes: the state vectors start as zeros.  \<open>padded buf\<close>
  is the buffer behind those 32 zeros, so that lane \<open>i\<close> of block \<open>k\<close> is its position
  \<open>32 + 32 * k + i\<close>.
\<close>

definition padded :: "byte list \<Rightarrow> byte list" where
  "padded buf = replicate 32 0 @ buf"

text \<open>The lane at position \<open>q\<close> passes the range check against the three bytes before it.\<close>

definition lane_ok_at :: "byte list \<Rightarrow> nat \<Rightarrow> bool" where
  "lane_ok_at Z q =
     (lane_error (lane_range (Z ! (q - 3)) (Z ! (q - 2)) (Z ! (q - 1)) (Z ! q)) (Z ! q) = 0)"

text \<open>All 32 lanes of block \<open>k\<close> pass: the loop does not take the \<^verbatim>\<open>break\<close>.\<close>

definition block_ok :: "byte list \<Rightarrow> nat \<Rightarrow> bool" where
  "block_ok buf k = (\<forall>i < 32. lane_ok_at (padded buf) (32 + 32 * k + i))"

text \<open>The variables of the loop after \<open>k\<close> accepted blocks.\<close>

definition vst :: "byte list \<Rightarrow> nat \<Rightarrow> vstate" where
  "vst buf k =
     \<lparr>data = 32 * k, len = length buf - 32 * k, err_idx = 1 + 32 * of_nat k,
      prev_input = take 32 (drop (32 * k) (padded buf)),
      prev_first_len = map first_len_byte (take 32 (drop (32 * k) (padded buf)))\<rparr>"

text \<open>
  The offset \<open>m\<close> is that of the first byte of the first malformed sequence of \<open>s\<close>:
  the bytes before it are well-formed sequences, and no well-formed sequence starts at it.
\<close>

definition first_malformed :: "byte list \<Rightarrow> nat \<Rightarrow> bool" where
  "first_malformed s m =
     (m < length s \<and> well_formed (take m s) \<and> (\<forall>k. \<not> wf_sequence (take k (drop m s))))"

section \<open>The rewind\<close>

text \<open>A byte that is not a continuation byte 80..BF: what \<^verbatim>\<open>token[i] > (int8_t)0xBF\<close> tests.\<close>

definition non_continuation :: "byte \<Rightarrow> bool" where
  "non_continuation b = (b < 0x80 \<or> 0xBF < b)"

text \<open>
  The rewind distance as the specification words it: among the final four bytes of
  \<^verbatim>\<open>prev_input\<close>, the rightmost byte that is not a continuation is found, and the
  distance is the number of bytes after that byte (0 when all four are continuations, a
  case the wording leaves open).
\<close>

definition claimed_lookahead :: "m256i \<Rightarrow> nat" where
  "claimed_lookahead prev =
     (if (0xBF :: byte) <s prev ! 31 then 0
      else if (0xBF :: byte) <s prev ! 30 then 1
      else if (0xBF :: byte) <s prev ! 29 then 2
      else if (0xBF :: byte) <s prev ! 28 then 3
      else 0)"

text \<open>
  The rewind distance of the source: the distance from the end of the block back to and
  including the rightmost non-continuation byte among the last three, 0 when all three
  are continuation bytes.
\<close>

definition lookahead_bytes :: "m256i \<Rightarrow> nat" where
  "lookahead_bytes prev =
     (if non_continuation (prev ! 31) then 1
      else if non_continuation (prev ! 30) then 2
      else if non_continuation (prev ! 29) then 3
      else 0)"

section \<open>The validators over a bounded buffer\<close>

text \<open>
  The same two functions with every memory access checked against the buffer
  \<^verbatim>\<open>p[0..n)\<close>, which is the list \<open>buf\<close>: \<open>rd buf i\<close> is the byte \<^verbatim>\<open>p[i]\<close> when \<open>i < n\<close>
  and \<open>None\<close> otherwise, \<open>ld32 buf i\<close> the unaligned 32-byte load at \<^verbatim>\<open>p + i\<close>, and a
  rewind that would leave the buffer is \<open>None\<close> as well.  A result \<open>None\<close> says that
  some access fell outside the buffer.  The pointer \<^verbatim>\<open>data\<close> is its offset \<open>p\<close> from the
  start, \<^verbatim>\<open>len\<close> is passed as the source passes it, and \<^verbatim>\<open>data[1]\<close> is read only when
  the conjuncts before it in the \<^verbatim>\<open>&&\<close> chain hold.
\<close>

definition rd :: "byte list \<Rightarrow> nat \<Rightarrow> byte option" where
  "rd buf i = (if i < length buf then Some (buf ! i) else None)"

definition ld32 :: "byte list \<Rightarrow> nat \<Rightarrow> m256i option" where
  "ld32 buf i = (if i + 32 \<le> length buf then Some (mm256_loadu_si256 (drop i buf)) else None)"

function utf8_valid_naive_mem ::
  "byte list \<Rightarrow> nat \<Rightarrow> nat \<Rightarrow> size_t \<Rightarrow> size_t \<Rightarrow> (bool \<times> size_t) option" where
  "utf8_valid_naive_mem buf p n eidx error_index =
     (if n = 0 then Some (True, error_index)
      else
        (case rd buf p of
           None \<Rightarrow> None
         | Some byte1 \<Rightarrow>
            (if byte1 \<le> 0x7F then
               utf8_valid_naive_mem buf (p + 1) (n - 1) (eidx + 1) error_index
             else
               (case (if 2 \<le> n \<and> 0xC2 \<le> byte1 \<and> byte1 \<le> 0xDF
                      then map_option (\<lambda>b. b \<le>s 0xBF) (rd buf (p + 1)) else Some False) of
                  None \<Rightarrow> None
                | Some True \<Rightarrow> utf8_valid_naive_mem buf (p + 2) (n - 2) (eidx + 2) error_index
                | Some False \<Rightarrow>
                   (if 3 \<le> n then
                      (case rd buf (p + 1) of
                         None \<Rightarrow> None
                       | Some byte2 \<Rightarrow>
                          (case rd buf (p + 2) of
                             None \<Rightarrow> None
                           | Some byte3 \<Rightarrow>
                              (let byte2_ok = (byte2 \<le>s 0xBF);
                                   byte3_ok = (byte3 \<le>s 0xBF)
                               in
                                 if byte2_ok \<and> byte3_ok \<and>
                                    ((byte1 = 0xE0 \<and> 0xA0 \<le> byte2) \<or>
                                     (0xE1 \<le> byte1 \<and> byte1 \<le> 0xEC) \<or>
                                     (byte1 = 0xED \<and> byte2 \<le> 0x9F) \<or>
                                     (0xEE \<le> byte1 \<and> byte1 \<le> 0xEF)) then
                                   utf8_valid_naive_mem buf (p + 3) (n - 3) (eidx + 3) error_index
                                 else if 4 \<le> n then
                                   (case rd buf (p + 3) of
                                      None \<Rightarrow> None
                                    | Some byte4 \<Rightarrow>
                                       (let byte4_ok = (byte4 \<le>s 0xBF) in
                                          if byte2_ok \<and> byte3_ok \<and> byte4_ok \<and>
                                             ((byte1 = 0xF0 \<and> 0x90 \<le> byte2) \<or>
                                              (0xF1 \<le> byte1 \<and> byte1 \<le> 0xF3) \<or>
                                              (byte1 = 0xF4 \<and> byte2 \<le> 0x8F)) then
                                            utf8_valid_naive_mem buf (p + 4) (n - 4) (eidx + 4)
                                              error_index
                                          else Some (False, eidx)))
                                 else Some (False, eidx))))
                    else Some (False, eidx))))))"
  by pat_completeness auto
termination
  by (relation "measure (\<lambda>(buf, p, n, eidx, error_index). n)") auto

declare utf8_valid_naive_mem.simps [simp del]

function vector_loop_mem :: "byte list \<Rightarrow> vstate \<Rightarrow> vstate option" where
  "vector_loop_mem buf st =
     (if 32 \<le> len st then
        (case ld32 buf (data st) of
           None \<Rightarrow> None
         | Some input \<Rightarrow>
            (let first_len = first_len_of input;
                 error = block_error (prev_input st) (prev_first_len st) input
             in
               if \<not> mm256_testz_si256 error error then Some st
               else vector_loop_mem buf
                      \<lparr>data = data st + 32, len = len st - 32, err_idx = err_idx st + 32,
                       prev_input = input, prev_first_len = first_len\<rparr>))
      else Some st)"
  by pat_completeness auto
termination
  by (relation "measure (\<lambda>(buf, st). len st)") auto

declare vector_loop_mem.simps [simp del]

definition rewind_mem :: "vstate \<Rightarrow> vstate option" where
  "rewind_mem st =
     (let lookahead = lookahead_of (prev_input st) in
      if unat lookahead \<le> data st then Some (rewind st) else None)"

definition utf8_valid_mem :: "byte list \<Rightarrow> size_t \<Rightarrow> size_t \<Rightarrow> (bool \<times> size_t) option" where
  "utf8_valid_mem buf err_idx2 error_index =
     (let st0 = \<lparr>data = 0, len = length buf, err_idx = 1,
                prev_input = mm256_set1_epi8 0, prev_first_len = mm256_set1_epi8 0\<rparr>
      in
        (case (if 32 \<le> length buf then
                 (case vector_loop_mem buf st0 of
                    None \<Rightarrow> None
                  | Some st \<Rightarrow> if err_idx st = 1 then Some st else rewind_mem st)
               else Some st0) of
           None \<Rightarrow> None
         | Some st \<Rightarrow>
            (case utf8_valid_naive_mem buf (data st) (len st) 0 err_idx2 of
               None \<Rightarrow> None
             | Some (ok, err_idx2') \<Rightarrow>
                 if \<not> ok then Some (False, scast (err_idx st) + err_idx2' - 1)
                 else Some (True, error_index))))"

section \<open>Checked runs of bytes\<close>

text \<open>The lane with byte \<open>x\<close> after the bytes \<open>c3\<close>, \<open>c2\<close>, \<open>c1\<close> passes the range check.\<close>

definition lane_ok :: "byte \<Rightarrow> byte \<Rightarrow> byte \<Rightarrow> byte \<Rightarrow> bool" where
  "lane_ok c3 c2 c1 x = (lane_error (lane_range c3 c2 c1 x) x = 0)"

text \<open>A continuation byte 80..BF.\<close>

definition cont :: "byte \<Rightarrow> bool" where
  "cont b = (0x80 \<le> b \<and> b \<le> 0xBF)"

text \<open>Every byte of a run passes the range check, the run starting after \<open>c3\<close>, \<open>c2\<close>, \<open>c1\<close>.\<close>

fun lanes_ok :: "byte \<Rightarrow> byte \<Rightarrow> byte \<Rightarrow> byte list \<Rightarrow> bool" where
  "lanes_ok c3 c2 c1 [] = True"
| "lanes_ok c3 c2 c1 (x # xs) = (lane_ok c3 c2 c1 x \<and> lanes_ok c2 c1 x xs)"

text \<open>The rewind distance decided by the last three bytes \<open>a\<close>, \<open>b\<close>, \<open>c\<close> of a block.\<close>

definition la3 :: "byte \<Rightarrow> byte \<Rightarrow> byte \<Rightarrow> nat" where
  "la3 a b c =
     (if non_continuation c then 1 else if non_continuation b then 2
      else if non_continuation a then 3 else 0)"

text \<open>The rewind distance decided by the last three bytes of \<open>c3\<close>, \<open>c2\<close>, \<open>c1\<close> and the run.\<close>

fun trail :: "byte \<Rightarrow> byte \<Rightarrow> byte \<Rightarrow> byte list \<Rightarrow> nat" where
  "trail c3 c2 c1 [] = la3 c3 c2 c1"
| "trail c3 c2 c1 (x # xs) = trail c2 c1 x xs"

text \<open>
  The three bytes before a sequence boundary: none of them is a lead byte that still
  expects a continuation at the next position.
\<close>

definition bctx :: "byte \<Rightarrow> byte \<Rightarrow> byte \<Rightarrow> bool" where
  "bctx c3 c2 c1 = (c1 < 0xC0 \<and> c2 < 0xE0 \<and> c3 < 0xF0)"

section \<open>Bytes\<close>

lemma byte_exhaust: "(\<forall>b :: byte. P b) = (\<forall>n \<in> set [0..<256]. P (of_nat n))"
proof
  assume "\<forall>b. P b"
  then show "\<forall>n \<in> set [0..<256]. P (of_nat n)" by simp
next
  assume h: "\<forall>n \<in> set [0..<256]. P (of_nat n)"
  show "\<forall>b. P b"
  proof
    fix b :: byte
    have "unat b < 256" using unsigned_less [of b, where 'a = nat] by simp
    then have "unat b \<in> set [0..<256]" by simp
    with h have "P (of_nat (unat b))" by (rule bspec)
    then show "P b" by simp
  qed
qed

lemma sint_byte: "sint (x :: byte) = (if x < 0x80 then uint x else uint x - 256)"
proof -
  have "\<forall>x :: byte. sint x = (if x < 0x80 then uint x else uint x - 256)"
    unfolding byte_exhaust by code_simp
  then show ?thesis by blast
qed

lemma cmpgt_i8_eq: "cmpgt_i8 x y = (if sint y < sint x then 0xFF else 0)"
  by (simp add: cmpgt_i8_def word_sless_alt)

lemma sle_BF: "((x :: byte) \<le>s 0xBF) = (0x80 \<le> x \<and> x \<le> 0xBF)"
  apply (insert uint_lt2p [of x])
  apply (simp add: word_sle_eq sint_byte word_le_def word_less_def)
  apply (insert uint_ge_0 [of x])
  apply arith
  done

lemma sless_BF: "((0xBF :: byte) <s x) = (x < 0x80 \<or> 0xBF < x)"
  apply (insert uint_lt2p [of x])
  apply (simp add: word_sless_alt sint_byte word_le_def word_less_def)
  apply (insert uint_ge_0 [of x])
  apply arith
  done

section \<open>The vector operations, lane by lane\<close>

lemma mask4: "(0x0F :: byte) = mask 4"
  by (simp add: mask_eq_exp_minus_1)

lemma nibble_lo:
  "(ucast (drop_bit 4 (word_cat (hi :: byte) (lo :: byte) :: 16 word)) :: byte) AND 0x0F
     = drop_bit 4 lo"
  unfolding mask4
  by (rule bit_word_eqI) (auto simp: bit_simps dest: bit_imp_le_length)

lemma nibble_hi:
  "(ucast (drop_bit 12 (word_cat (hi :: byte) (lo :: byte) :: 16 word)) :: byte) AND 0x0F
     = drop_bit 4 hi"
  unfolding mask4
  by (rule bit_word_eqI) (auto simp: bit_simps dest: bit_imp_le_length)

lemma srli16_nibbles:
  "even (length xs) \<Longrightarrow>
   map2 (\<lambda>x y. x AND y) (srli16_lanes 4 xs) (replicate (length xs) 0x0F) = map (drop_bit 4) xs"
  by (induction "4 :: nat" xs rule: srli16_lanes.induct)
     (simp_all add: Let_def nibble_lo nibble_hi)

lemma high_nibbles_of_map:
  "length input = 32 \<Longrightarrow> high_nibbles_of input = map (drop_bit 4) input"
  using srli16_nibbles [of input]
  by (simp add: high_nibbles_of_def mm256_and_si256_def mm256_srli_epi16_def mm256_set1_epi8_def)

lemma permute_0x21: "mm256_permute2x128_si256 a b 0x21 = drop 16 a @ take 16 b"
  by (simp add: mm256_permute2x128_si256_def select4_def)

lemma push_last_byte_eq:
  "length a = 32 \<Longrightarrow> length b = 32 \<Longrightarrow> push_last_byte_of_a_to_b a b = drop 31 a @ take 31 b"
  by (rule nth_equalityI)
     (auto simp: push_last_byte_of_a_to_b_def permute_0x21 mm256_alignr_epi8_def
        alignr_lane_def nth_append intro!: arg_cong2 [where f = nth])

lemma push_last_2bytes_eq:
  "length a = 32 \<Longrightarrow> length b = 32 \<Longrightarrow> push_last_2bytes_of_a_to_b a b = drop 30 a @ take 30 b"
  by (rule nth_equalityI)
     (auto simp: push_last_2bytes_of_a_to_b_def permute_0x21 mm256_alignr_epi8_def
        alignr_lane_def nth_append intro!: arg_cong2 [where f = nth])

lemma push_last_3bytes_eq:
  "length a = 32 \<Longrightarrow> length b = 32 \<Longrightarrow> push_last_3bytes_of_a_to_b a b = drop 29 a @ take 29 b"
  by (rule nth_equalityI)
     (auto simp: push_last_3bytes_of_a_to_b_def permute_0x21 mm256_alignr_epi8_def
        alignr_lane_def nth_append intro!: arg_cong2 [where f = nth])

lemma shuffle_dup:
  "length idx = 32 \<Longrightarrow> drop 16 T = take 16 T \<Longrightarrow>
   mm256_shuffle_epi8 T idx = map (shuffle_byte (take 16 T)) idx"
  by (simp add: mm256_shuffle_epi8_def flip: map_append)

lemma tbl_dup:
  "drop 16 first_len_tbl = take 16 first_len_tbl"
  "drop 16 first_range_tbl = take 16 first_range_tbl"
  "drop 16 range_min_tbl = take 16 range_min_tbl"
  "drop 16 range_max_tbl = take 16 range_max_tbl"
  "drop 16 df_ee_tbl = take 16 df_ee_tbl"
  "drop 16 ef_fe_tbl = take 16 ef_fe_tbl"
  by (simp_all add: first_len_tbl_def first_range_tbl_def range_min_tbl_def range_max_tbl_def
        df_ee_tbl_def ef_fe_tbl_def)

lemma first_len_of_map: "length input = 32 \<Longrightarrow> first_len_of input = map first_len_byte input"
  by (simp add: first_len_of_def shuffle_dup tbl_dup high_nibbles_of_map first_len_byte_def)

lemma range_error_nth:
  "length rng = 32 \<Longrightarrow> length input = 32 \<Longrightarrow> i < 32 \<Longrightarrow>
   range_error rng input ! i = lane_error (rng ! i) (input ! i)"
  by (simp add: range_error_def Let_def shuffle_dup tbl_dup mm256_or_si256_def
        mm256_cmpgt_epi8_def lane_error_def)

lemma range_adjust_nth:
  "length prev = 32 \<Longrightarrow> length input = 32 \<Longrightarrow> i < 32 \<Longrightarrow>
   range_adjust prev input ! i =
     df_ee_byte ((prev @ input) ! (31 + i)) + ef_fe_byte ((prev @ input) ! (31 + i))"
  by (auto simp add: range_adjust_def Let_def shuffle_dup tbl_dup push_last_byte_eq
        mm256_sub_epi8_def mm256_subs_epu8_def mm256_adds_epu8_def mm256_add_epi8_def
        mm256_set1_epi8_def df_ee_byte_def ef_fe_byte_def nth_append
        intro!: arg_cong2 [where f = nth])

lemma range_index_nth:
  "length prev = 32 \<Longrightarrow> length input = 32 \<Longrightarrow> i < 32 \<Longrightarrow>
   range_index (map first_len_byte prev) input ! i =
     ((first_range_byte (input ! i) OR first_len_byte ((prev @ input) ! (31 + i)))
        OR subs_u8 (first_len_byte ((prev @ input) ! (30 + i))) 1)
        OR subs_u8 (first_len_byte ((prev @ input) ! (29 + i))) 2"
  by (auto simp add: range_index_def Let_def shuffle_dup tbl_dup push_last_byte_eq
        push_last_2bytes_eq push_last_3bytes_eq high_nibbles_of_map mm256_or_si256_def
        mm256_subs_epu8_def mm256_set1_epi8_def first_range_byte_def first_len_byte_def
        nth_append intro!: arg_cong2 [where f = nth])

section \<open>The tables, byte by byte\<close>

lemma first_len_byte_eq:
  "first_len_byte b = (if b < 0xC0 then 0 else if b < 0xE0 then 1 else if b < 0xF0 then 2 else 3)"
proof -
  have "\<forall>b. first_len_byte b =
          (if b < 0xC0 then 0 else if b < 0xE0 then 1 else if b < 0xF0 then 2 else 3)"
    unfolding byte_exhaust by code_simp
  then show ?thesis by blast
qed

lemma first_range_byte_eq: "first_range_byte b = (if b < 0xC0 then 0 else 8)"
proof -
  have "\<forall>b. first_range_byte b = (if b < 0xC0 then 0 else 8)"
    unfolding byte_exhaust by code_simp
  then show ?thesis by blast
qed

lemma df_ee_byte_eq: "df_ee_byte v = (if v = 0xE0 then 2 else if v = 0xED then 3 else 0)"
proof -
  have "\<forall>v. df_ee_byte v = (if v = 0xE0 then 2 else if v = 0xED then 3 else 0)"
    unfolding byte_exhaust by code_simp
  then show ?thesis by blast
qed

lemma ef_fe_byte_eq: "ef_fe_byte v = (if v = 0xF0 then 3 else if v = 0xF4 then 4 else 0)"
proof -
  have "\<forall>v. ef_fe_byte v = (if v = 0xF0 then 3 else if v = 0xF4 then 4 else 0)"
    unfolding byte_exhaust by code_simp
  then show ?thesis by blast
qed

lemma lt16_cases:
  "r < 16 \<Longrightarrow> r \<in> {0, 1, 2, 3, 4, 5, 6, 7, 8, 9, 10, 11, 12, 13, 14, 15 :: nat}"
  by simp arith

lemma lane_error_eq: "r < 16 \<Longrightarrow> (lane_error (of_nat r) x = 0) = in_range r x"
  apply (drule lt16_cases)
  apply (insert uint_lt2p [of x])
  apply (elim insertE emptyE)
  apply (simp_all add: lane_error_def shuffle_byte_def range_min_tbl_def range_max_tbl_def
         cmpgt_i8_eq sint_byte in_range_def word_le_def word_less_def)
  apply (insert uint_ge_0 [of x])
  apply arith+
  done

section \<open>The range tables (claims C6 and C7)\<close>

lemma illegal_index_cases:
  "9 \<le> unat (r :: byte) \<Longrightarrow> unat r \<le> 15 \<Longrightarrow> r \<in> {9, 10, 11, 12, 13, 14, 15}"
proof -
  assume a: "9 \<le> unat r" "unat r \<le> 15"
  then have "unat r \<in> {9, 10, 11, 12, 13, 14, 15}" by simp arith
  moreover have "\<And>n. unat r = n \<Longrightarrow> r = of_nat n" by auto
  ultimately show ?thesis by (auto dest!: \<open>\<And>n. unat r = n \<Longrightarrow> r = of_nat n\<close>)
qed

lemma lane_error_illegal:
  "r \<in> {9, 10, 11, 12, 13, 14, 15} \<Longrightarrow> lane_error r x = 0xFF"
  apply (insert uint_lt2p [of x])
  apply (elim insertE emptyE)
  apply (simp_all add: lane_error_def shuffle_byte_def range_min_tbl_def range_max_tbl_def
         cmpgt_i8_eq sint_byte)
  done

text \<open>
  Claim C6.  In a lane whose range index is one of 9..15 the two table look-ups give
  \<open>min = 0x7F\<close> and \<open>max = 0x80\<close>; every byte is, as a signed 8-bit value, below the
  minimum or above the maximum; so the lane of \<^verbatim>\<open>error\<close> is \<open>0xFF\<close> and the zero test of the
  block fails, whatever the input byte.
\<close>

theorem C6_illegal_range_index:
  assumes "length rng = 32" and "length input = 32" and "i < 32"
    and "9 \<le> unat (rng ! i)" and "unat (rng ! i) \<le> 15"
  shows "mm256_shuffle_epi8 range_min_tbl rng ! i = 0x7F \<and>
         mm256_shuffle_epi8 range_max_tbl rng ! i = 0x80 \<and>
         (input ! i <s 0x7F \<or> 0x80 <s input ! i) \<and>
         range_error rng input ! i = 0xFF \<and>
         \<not> mm256_testz_si256 (range_error rng input) (range_error rng input)"
proof -
  have r: "rng ! i \<in> {9, 10, 11, 12, 13, 14, 15}"
    using assms(4,5) by (rule illegal_index_cases)
  have mn: "mm256_shuffle_epi8 range_min_tbl rng ! i = 0x7F"
    using r assms(1,3)
    by (auto simp add: shuffle_dup tbl_dup shuffle_byte_def range_min_tbl_def)
  have mx: "mm256_shuffle_epi8 range_max_tbl rng ! i = 0x80"
    using r assms(1,3)
    by (auto simp add: shuffle_dup tbl_dup shuffle_byte_def range_max_tbl_def)
  have cmp: "input ! i <s 0x7F \<or> 0x80 <s input ! i"
    apply (insert uint_lt2p [of "input ! i"])
    apply (simp add: word_sless_alt sint_byte)
    apply (insert uint_ge_0 [of "input ! i"])
    apply arith
    done
  have e: "range_error rng input ! i = 0xFF"
    using assms(1-3) r by (simp add: range_error_nth lane_error_illegal)
  have len: "length (range_error rng input) = 32"
    using assms(1,2)
    by (simp add: range_error_def Let_def mm256_or_si256_def mm256_cmpgt_epi8_def
          shuffle_dup tbl_dup)
  have "\<not> mm256_testz_si256 (range_error rng input) (range_error rng input)"
    using e len assms(3)
    by (auto simp add: mm256_testz_si256_def list_all_length)
  with mn mx cmp e show ?thesis by blast
qed

theorem C6_illegal_range_index_witness:
  "length (replicate 32 (9 :: byte)) = 32 \<and> (0 :: nat) < 32 \<and>
   9 \<le> unat (replicate 32 (9 :: byte) ! 0) \<and> unat (replicate 32 (9 :: byte) ! 0) \<le> 15 \<and>
   mm256_shuffle_epi8 range_min_tbl (replicate 32 9) ! 0 = 0x7F \<and>
   mm256_shuffle_epi8 range_max_tbl (replicate 32 9) ! 0 = 0x80 \<and>
   range_error (replicate 32 9) (replicate 32 0x7F) ! 0 = 0xFF \<and>
   \<not> mm256_testz_si256 (range_error (replicate 32 9) (replicate 32 0x7F))
        (range_error (replicate 32 9) (replicate 32 0x7F))"
  using C6_illegal_range_index [of "replicate 32 9" "replicate 32 0x7F" 0]
  by simp

lemma length_range_adjust:
  "length prev = 32 \<Longrightarrow> length input = 32 \<Longrightarrow> length (range_adjust prev input) = 32"
  by (simp add: range_adjust_def Let_def shuffle_dup tbl_dup push_last_byte_eq
        mm256_sub_epi8_def mm256_subs_epu8_def mm256_adds_epu8_def mm256_add_epi8_def
        mm256_set1_epi8_def)

text \<open>
  Claim C7.  Lane \<open>i\<close> of \<^verbatim>\<open>shift1\<close> holds the byte \<open>v\<close> one position before lane \<open>i\<close> of
  the input, taken from the previous block for lane 0, and \<open>pos = v - 0xEF\<close> modulo 256.
  The look-up in \<^verbatim>\<open>df_ee_tbl\<close> at the saturating difference of \<open>pos\<close> and 240 is 2 for
  \<open>v = 0xE0\<close>, 3 for \<open>v = 0xED\<close> and 0 for every other \<open>v\<close>; the look-up in \<^verbatim>\<open>ef_fe_tbl\<close>
  at the saturating sum of \<open>pos\<close> and 112 is 3 for \<open>v = 0xF0\<close>, 4 for \<open>v = 0xF4\<close> and 0
  for every other \<open>v\<close>; adding \<^verbatim>\<open>range2\<close> to a range vector changes lane \<open>i\<close> exactly when
  \<open>v\<close> is one of E0, ED, F0, F4.
\<close>

theorem C7_special_first_byte_adjustment:
  assumes "length prev = 32" and "length input = 32" and "length rng = 32" and "i < 32"
  shows
    "(let shift1 = push_last_byte_of_a_to_b prev input;
          v = shift1 ! i;
          pos = mm256_sub_epi8 shift1 (mm256_set1_epi8 0xEF)
      in v = (if i = 0 then prev ! 31 else input ! (i - 1)) \<and>
         pos ! i = v - 0xEF \<and>
         mm256_shuffle_epi8 df_ee_tbl (mm256_subs_epu8 pos (mm256_set1_epi8 240)) ! i =
           (if v = 0xE0 then 2 else if v = 0xED then 3 else 0) \<and>
         mm256_shuffle_epi8 ef_fe_tbl (mm256_adds_epu8 pos (mm256_set1_epi8 112)) ! i =
           (if v = 0xF0 then 3 else if v = 0xF4 then 4 else 0) \<and>
         (mm256_add_epi8 rng (range_adjust prev input) ! i \<noteq> rng ! i) =
           (v \<in> {0xE0, 0xED, 0xF0, 0xF4}))"
proof -
  let ?s = "push_last_byte_of_a_to_b prev input"
  let ?v = "?s ! i"
  let ?pos = "mm256_sub_epi8 ?s (mm256_set1_epi8 0xEF)"
  have ls: "length ?s = 32" using assms(1,2) by (simp add: push_last_byte_eq)
  have v: "?v = (if i = 0 then prev ! 31 else input ! (i - 1))"
    using assms by (auto simp add: push_last_byte_eq nth_append)
  have v': "?v = (prev @ input) ! (31 + i)"
    using assms by (auto simp add: push_last_byte_eq nth_append intro!: arg_cong2 [where f = nth])
  have pos: "?pos ! i = ?v - 0xEF"
    using ls assms(4) by (simp add: mm256_sub_epi8_def mm256_set1_epi8_def)
  have lp: "length ?pos = 32"
    using ls by (simp add: mm256_sub_epi8_def mm256_set1_epi8_def)
  have df: "mm256_shuffle_epi8 df_ee_tbl (mm256_subs_epu8 ?pos (mm256_set1_epi8 240)) ! i =
           (if ?v = 0xE0 then 2 else if ?v = 0xED then 3 else 0)"
    using lp assms(4) pos
    by (simp add: shuffle_dup tbl_dup mm256_subs_epu8_def mm256_set1_epi8_def
          df_ee_byte_eq [symmetric] df_ee_byte_def)
  have ef: "mm256_shuffle_epi8 ef_fe_tbl (mm256_adds_epu8 ?pos (mm256_set1_epi8 112)) ! i =
           (if ?v = 0xF0 then 3 else if ?v = 0xF4 then 4 else 0)"
    using lp assms(4) pos
    by (simp add: shuffle_dup tbl_dup mm256_adds_epu8_def mm256_set1_epi8_def
          ef_fe_byte_eq [symmetric] ef_fe_byte_def)
  have "mm256_add_epi8 rng (range_adjust prev input) ! i =
          rng ! i + (df_ee_byte ?v + ef_fe_byte ?v)"
    using assms by (simp add: mm256_add_epi8_def length_range_adjust range_adjust_nth v')
  then have adj: "(mm256_add_epi8 rng (range_adjust prev input) ! i \<noteq> rng ! i) =
           (?v \<in> {0xE0, 0xED, 0xF0, 0xF4})"
    by (simp add: df_ee_byte_eq ef_fe_byte_eq)
  show ?thesis
    unfolding Let_def using v pos df ef adj by blast
qed

theorem C7_special_first_byte_adjustment_witness:
  "(let prev = replicate 32 (0xF4 :: byte); input = replicate 32 (0x80 :: byte); rng = replicate 32 (3 :: byte);
        shift1 = push_last_byte_of_a_to_b prev input;
        pos = mm256_sub_epi8 shift1 (mm256_set1_epi8 0xEF)
    in length prev = 32 \<and> length input = 32 \<and> length rng = 32 \<and>
       shift1 ! 0 = 0xF4 \<and>
       mm256_shuffle_epi8 df_ee_tbl (mm256_subs_epu8 pos (mm256_set1_epi8 240)) ! 0 = 0 \<and>
       mm256_shuffle_epi8 ef_fe_tbl (mm256_adds_epu8 pos (mm256_set1_epi8 112)) ! 0 = 4 \<and>
       mm256_add_epi8 rng (range_adjust prev input) ! 0 \<noteq> rng ! 0)"
  using C7_special_first_byte_adjustment [of "replicate 32 0xF4" "replicate 32 0x80" "replicate 32 3" 0]
  by (simp add: Let_def)

section \<open>The scalar validator and Table 3-7\<close>

lemma take1: "1 \<le> length d \<Longrightarrow> take 1 d = [d ! 0]"
  by (cases d) auto
lemma take2: "2 \<le> length d \<Longrightarrow> take 2 d = [d ! 0, d ! 1]"
  by (cases d; cases "tl d") auto
lemma take3: "3 \<le> length d \<Longrightarrow> take 3 d = [d ! 0, d ! 1, d ! 2]"
  by (cases d; cases "tl d"; cases "tl (tl d)") auto
lemma take4: "4 \<le> length d \<Longrightarrow> take 4 d = [d ! 0, d ! 1, d ! 2, d ! 3]"
  by (cases d; cases "tl d"; cases "tl (tl d)"; cases "tl (tl (tl d))") auto

lemma byte_eq_iff: "((a :: byte) = b) = (unat a = unat b)"
  by (simp add: word_unat_eq_iff)

lemma cond3:
  "((0x80 \<le> b2 \<and> b2 \<le> 0xBF) \<and> (0x80 \<le> b3 \<and> b3 \<le> 0xBF) \<and>
     ((b1 = 0xE0 \<and> 0xA0 \<le> b2) \<or> (0xE1 \<le> b1 \<and> b1 \<le> 0xEC) \<or>
      (b1 = 0xED \<and> b2 \<le> 0x9F) \<or> (0xEE \<le> b1 \<and> b1 \<le> 0xEF)))
   = wf_sequence [b1 :: byte, b2, b3]"
  apply (simp add: word_le_nat_alt byte_eq_iff)
  apply arith
  done

lemma cond4:
  "((0x80 \<le> b2 \<and> b2 \<le> 0xBF) \<and> (0x80 \<le> b3 \<and> b3 \<le> 0xBF) \<and> (0x80 \<le> b4 \<and> b4 \<le> 0xBF) \<and>
     ((b1 = 0xF0 \<and> 0x90 \<le> b2) \<or> (0xF1 \<le> b1 \<and> b1 \<le> 0xF3) \<or>
      (b1 = 0xF4 \<and> b2 \<le> 0x8F)))
   = wf_sequence [b1 :: byte, b2, b3, b4]"
  apply (simp add: word_le_nat_alt byte_eq_iff)
  apply arith
  done

lemma wf_excl:
  "wf_sequence [b1] \<Longrightarrow> \<not> wf_sequence [b1, b2]"
  "wf_sequence [b1] \<Longrightarrow> \<not> wf_sequence [b1, b2, b3]"
  "wf_sequence [b1] \<Longrightarrow> \<not> wf_sequence [b1, b2, b3, b4]"
  "wf_sequence [b1, b2] \<Longrightarrow> \<not> wf_sequence [b1, c2, b3]"
  "wf_sequence [b1, b2] \<Longrightarrow> \<not> wf_sequence [b1, c2, b3, b4]"
  "wf_sequence [b1, b2, b3] \<Longrightarrow> \<not> wf_sequence [b1, c2, c3, b4]"
  by (simp_all add: word_le_nat_alt)

lemma cond1s: "(b1 \<le> 0x7F) = wf_sequence [b1]"
  by simp

lemma cond2s: "(0xC2 \<le> b1 \<and> b1 \<le> 0xDF \<and> b2 \<le>s 0xBF) = wf_sequence [b1, b2]"
  by (simp add: sle_BF)

lemma cond3s:
  "(b2 \<le>s 0xBF \<and> b3 \<le>s 0xBF \<and>
     ((b1 = 0xE0 \<and> 0xA0 \<le> b2) \<or> (0xE1 \<le> b1 \<and> b1 \<le> 0xEC) \<or>
      (b1 = 0xED \<and> b2 \<le> 0x9F) \<or> (0xEE \<le> b1 \<and> b1 \<le> 0xEF)))
   = wf_sequence [b1, b2, b3]"
  unfolding sle_BF by (rule cond3)

lemma cond4s:
  "(b2 \<le>s 0xBF \<and> b3 \<le>s 0xBF \<and> b4 \<le>s 0xBF \<and>
     ((b1 = 0xF0 \<and> 0x90 \<le> b2) \<or> (0xF1 \<le> b1 \<and> b1 \<le> 0xF3) \<or>
      (b1 = 0xF4 \<and> b2 \<le> 0x8F)))
   = wf_sequence [b1, b2, b3, b4]"
  unfolding sle_BF by (rule cond4)

lemma naive_bytes_cases:
  assumes "d \<noteq> []"
  shows "naive_bytes d =
     (let byte1 = d ! 0 in
      if byte1 \<le> 0x7F then 1
      else if 2 \<le> length d \<and> 0xC2 \<le> byte1 \<and> byte1 \<le> 0xDF \<and> d ! 1 \<le>s 0xBF then 2
      else if 3 \<le> length d then
        let byte2 = d ! 1; byte2_ok = (byte2 \<le>s 0xBF); byte3_ok = (d ! 2 \<le>s 0xBF) in
        if byte2_ok \<and> byte3_ok \<and>
               ((byte1 = 0xE0 \<and> 0xA0 \<le> byte2) \<or>
                (0xE1 \<le> byte1 \<and> byte1 \<le> 0xEC) \<or>
                (byte1 = 0xED \<and> byte2 \<le> 0x9F) \<or>
                (0xEE \<le> byte1 \<and> byte1 \<le> 0xEF)) then 3
        else if 4 \<le> length d then
          let byte4_ok = (d ! 3 \<le>s 0xBF) in
          if byte2_ok \<and> byte3_ok \<and> byte4_ok \<and>
                   ((byte1 = 0xF0 \<and> 0x90 \<le> byte2) \<or>
                    (0xF1 \<le> byte1 \<and> byte1 \<le> 0xF3) \<or>
                    (byte1 = 0xF4 \<and> byte2 \<le> 0x8F)) then 4 else 0
        else 0
      else 0)"
proof -
  have l1: "1 \<le> length d" using assms by (cases d) auto
  note t1 = take1 [OF l1]
  show ?thesis
  proof (cases "2 \<le> length d")
    case False
    then show ?thesis
      unfolding Let_def cond1s cond2s cond3s cond4s naive_bytes_def t1
      using l1 by (simp del: wf_sequence.simps)
  next
    case l2: True
    note t2 = take2 [OF l2]
    show ?thesis
    proof (cases "3 \<le> length d")
      case False
      then show ?thesis
        unfolding Let_def cond1s cond2s cond3s cond4s naive_bytes_def t1 t2
        using l1 l2 by (simp del: wf_sequence.simps)
    next
      case l3: True
      note t3 = take3 [OF l3]
      show ?thesis
      proof (cases "4 \<le> length d")
        case False
        then show ?thesis
          unfolding Let_def cond1s cond2s cond3s cond4s naive_bytes_def t1 t2 t3
          using l1 l2 l3 by (simp del: wf_sequence.simps)
      next
        case l4: True
        note t4 = take4 [OF l4]
        show ?thesis
          unfolding Let_def cond1s cond2s cond3s cond4s naive_bytes_def t1 t2 t3 t4
          using l1 l2 l3 l4 by (simp del: wf_sequence.simps)
      qed
    qed
  qed
qed

lemma naive_loop_unfold:
  "utf8_valid_naive_loop d acc e =
     (if d = [] then (True, e)
      else if naive_bytes d = 0 then (False, acc)
      else utf8_valid_naive_loop (drop (naive_bytes d) d) (acc + of_nat (naive_bytes d)) e)"
proof (cases "d = []")
  case True
  then show ?thesis by (subst utf8_valid_naive_loop.simps) simp
next
  case ne: False
  define A where "A = (d ! 0 \<le> 0x7F)"
  define B where "B = (2 \<le> length d \<and> 0xC2 \<le> d ! 0 \<and> d ! 0 \<le> 0xDF \<and> d ! 1 \<le>s 0xBF)"
  define L3 where "L3 = (3 \<le> length d)"
  define C where "C = (d ! 1 \<le>s 0xBF \<and> d ! 2 \<le>s 0xBF \<and>
               ((d ! 0 = 0xE0 \<and> 0xA0 \<le> d ! 1) \<or>
                (0xE1 \<le> d ! 0 \<and> d ! 0 \<le> 0xEC) \<or>
                (d ! 0 = 0xED \<and> d ! 1 \<le> 0x9F) \<or>
                (0xEE \<le> d ! 0 \<and> d ! 0 \<le> 0xEF)))"
  define L4 where "L4 = (4 \<le> length d)"
  define D where "D = (d ! 1 \<le>s 0xBF \<and> d ! 2 \<le>s 0xBF \<and> d ! 3 \<le>s 0xBF \<and>
                   ((d ! 0 = 0xF0 \<and> 0x90 \<le> d ! 1) \<or>
                    (0xF1 \<le> d ! 0 \<and> d ! 0 \<le> 0xF3) \<or>
                    (d ! 0 = 0xF4 \<and> d ! 1 \<le> 0x8F)))"
  define f where "f = (\<lambda>n k. utf8_valid_naive_loop (drop n d) (acc + k) e)"
  have lp: "utf8_valid_naive_loop d acc e =
     (if A then f 1 1 else if B then f 2 2
      else if L3 then (if C then f 3 3 else if L4 then (if D then f 4 4 else (False, acc)) else (False, acc))
      else (False, acc))"
    by (subst utf8_valid_naive_loop.simps)
       (simp only: ne Let_def A_def B_def L3_def C_def L4_def D_def f_def if_False)
  have nb: "naive_bytes d =
     (if A then 1 else if B then 2
      else if L3 then (if C then 3 else if L4 then (if D then 4 else 0) else 0)
      else 0)"
    by (subst naive_bytes_cases [OF ne])
       (simp only: Let_def A_def B_def L3_def C_def L4_def D_def)
  show ?thesis
    unfolding lp nb using ne by (simp add: f_def)
qed

lemma wf_sequence_shape:
  assumes "wf_sequence q"
  obtains b1 where "q = [b1]"
  | b1 b2 where "q = [b1, b2]"
  | b1 b2 b3 where "q = [b1, b2, b3]"
  | b1 b2 b3 b4 where "q = [b1, b2, b3, b4]"
  using assms by (cases q rule: wf_sequence.cases) auto

lemma wf_sequence_length: "wf_sequence q \<Longrightarrow> 1 \<le> length q \<and> length q \<le> 4"
  by (erule wf_sequence_shape) auto

lemma wf_first:
  "wf_sequence [b1, b2] \<Longrightarrow> \<not> wf_sequence [b1]"
  "wf_sequence [b1, b2, b3] \<Longrightarrow> \<not> wf_sequence [b1] \<and> \<not> wf_sequence [b1, b2]"
  "wf_sequence [b1, b2, b3, b4] \<Longrightarrow>
     \<not> wf_sequence [b1] \<and> \<not> wf_sequence [b1, b2] \<and> \<not> wf_sequence [b1, b2, b3]"
  by (simp_all add: word_le_nat_alt)

lemma naive_bytes_wf:
  assumes w: "wf_sequence q"
  shows "naive_bytes (q @ r) = length q"
  using w
proof (rule wf_sequence_shape)
  fix b1 assume "q = [b1]"
  then show ?thesis using w by (simp add: naive_bytes_def)
next
  fix b1 b2 assume "q = [b1, b2]"
  then show ?thesis using w wf_first(1) [of b1 b2]
    by (simp add: naive_bytes_def del: wf_sequence.simps)
next
  fix b1 b2 b3 assume "q = [b1, b2, b3]"
  then show ?thesis using w wf_first(2) [of b1 b2 b3]
    by (simp add: naive_bytes_def del: wf_sequence.simps)
next
  fix b1 b2 b3 b4 assume "q = [b1, b2, b3, b4]"
  then show ?thesis using w wf_first(3) [of b1 b2 b3 b4]
    by (simp add: naive_bytes_def del: wf_sequence.simps)
qed

lemma naive_bytes_pos:
  "0 < naive_bytes d \<Longrightarrow> naive_bytes d \<le> length d \<and> wf_sequence (take (naive_bytes d) d)"
  unfolding naive_bytes_def
  by (simp split: if_splits del: wf_sequence.simps)

lemma naive_bytes_zero: "naive_bytes d = 0 \<Longrightarrow> \<not> wf_sequence (take k d)"
proof
  assume z: "naive_bytes d = 0" and w: "wf_sequence (take k d)"
  have "naive_bytes (take k d @ drop k d) = length (take k d)"
    using w by (rule naive_bytes_wf)
  then have "length (take k d) = 0" using z by simp
  then show False using wf_sequence_length [OF w] by simp
qed

lemma naive_loop_wf_append:
  "well_formed a \<Longrightarrow>
   utf8_valid_naive_loop (a @ b) acc e = utf8_valid_naive_loop b (acc + of_nat (length a)) e"
proof (induction a arbitrary: acc rule: well_formed.induct)
  case wf_empty
  then show ?case by simp
next
  case (wf_append q r)
  have pos: "0 < length q" using wf_sequence_length [OF wf_append.hyps(1)] by auto
  then have ne: "q @ r @ b \<noteq> []" by auto
  have nb: "naive_bytes (q @ r @ b) = length q"
    using wf_append.hyps(1) by (rule naive_bytes_wf)
  have "utf8_valid_naive_loop (q @ r @ b) acc e =
        utf8_valid_naive_loop (r @ b) (acc + of_nat (length q)) e"
    using ne nb pos by (subst naive_loop_unfold) simp
  also have "\<dots> = utf8_valid_naive_loop b (acc + of_nat (length q) + of_nat (length r)) e"
    by (rule wf_append.IH)
  finally show ?case by (simp add: add.assoc)
qed

lemma naive_loop_nil: "utf8_valid_naive_loop [] acc e = (True, e)"
  by (subst naive_loop_unfold) simp

lemma naive_loop_wf:
  "well_formed d \<Longrightarrow> utf8_valid_naive_loop d acc e = (True, e)"
  using naive_loop_wf_append [of d "[]" acc e]
  by (simp add: naive_loop_nil)

lemma naive_loop_result:
  "utf8_valid_naive_loop d acc e = (ok, r) \<Longrightarrow>
   (if ok then well_formed d \<and> r = e
    else \<exists>m < length d. r = acc + of_nat m \<and> well_formed (take m d) \<and>
           naive_bytes (drop m d) = 0)"
proof (induction "length d" arbitrary: d acc rule: less_induct)
  case less
  show ?case
  proof (cases "d = []")
    case True
    then show ?thesis using less.prems
      by (auto simp add: naive_loop_nil well_formed.wf_empty)
  next
    case ne: False
    show ?thesis
    proof (cases "naive_bytes d = 0")
      case True
      then have "ok = False" "r = acc" using less.prems ne
        by (simp_all add: naive_loop_unfold [of d])
      moreover have "0 < length d" using ne by simp
      moreover have "well_formed (take 0 d)" by (simp add: well_formed.wf_empty)
      moreover have "naive_bytes (drop 0 d) = 0" using True by simp
      moreover have "acc = acc + of_nat 0" by simp
      ultimately show ?thesis by (simp only: if_False) blast
    next
      case False
      define n where "n = naive_bytes d"
      have npos: "0 < n" using False by (simp add: n_def)
      have nle: "n \<le> length d" and w: "wf_sequence (take n d)"
        using naive_bytes_pos [of d] npos by (simp_all add: n_def)
      have rec: "utf8_valid_naive_loop (drop n d) (acc + of_nat n) e = (ok, r)"
        using less.prems ne False by (simp add: naive_loop_unfold [of d] n_def)
      have lt: "length (drop n d) < length d" using npos ne by simp
      note ih = less.hyps [OF lt rec]
      show ?thesis
      proof (cases ok)
        case True
        then have wd: "well_formed (drop n d)" and re: "r = e" using ih by simp_all
        have "well_formed (take n d @ drop n d)" using w wd by (rule well_formed.wf_append)
        then show ?thesis using True re by simp
      next
        case False
        then obtain m where m: "m < length (drop n d)" "r = acc + of_nat n + of_nat m"
          "well_formed (take m (drop n d))" "naive_bytes (drop m (drop n d)) = 0"
          using ih by auto
        have "well_formed (take n d @ take m (drop n d))"
          using w m(3) by (rule well_formed.wf_append)
        then have a: "well_formed (take (n + m) d)" by (simp add: take_add)
        have b: "n + m < length d" using m(1) nle by simp
        have c: "r = acc + of_nat (n + m)" using m(2) by simp
        have d: "naive_bytes (drop (n + m) d) = 0" using m(4) by (simp add: add.commute)
        show ?thesis using False a b c d by (simp only: if_False) blast
      qed
    qed
  qed
qed

text \<open>
  Claim C2.  The scalar validator returns true exactly on the buffers that are well-formed
  UTF-8 in the sense of Table 3-7.
\<close>

theorem C2_naive_accepts_well_formed:
  "fst (utf8_valid_naive p error_index) = well_formed p"
proof
  assume "fst (utf8_valid_naive p error_index)"
  then obtain r where "utf8_valid_naive_loop p 0 error_index = (True, r)"
    by (cases "utf8_valid_naive_loop p 0 error_index") (simp add: utf8_valid_naive_def)
  from naive_loop_result [OF this] show "well_formed p" by simp
next
  assume "well_formed p"
  then show "fst (utf8_valid_naive p error_index)"
    by (simp add: utf8_valid_naive_def naive_loop_wf)
qed

theorem C2_naive_accepts_well_formed_witness:
  "fst (utf8_valid_naive [0xE0, 0xA0, 0x80, 0x41] 0) \<and> well_formed [0xE0, 0xA0, 0x80, 0x41] \<and>
   \<not> fst (utf8_valid_naive [0xE0, 0x80, 0x80] 0) \<and> \<not> well_formed [0xE0, 0x80, 0x80] \<and>
   \<not> fst (utf8_valid_naive [0xF1, 0x80, 0x80] 0) \<and> \<not> well_formed [0xF1, 0x80, 0x80]"
proof -
  have a: "fst (utf8_valid_naive [0xE0, 0xA0, 0x80, 0x41] 0)" by code_simp
  have b: "\<not> fst (utf8_valid_naive [0xE0, 0x80, 0x80] 0)" by code_simp
  have c: "\<not> fst (utf8_valid_naive [0xF1, 0x80, 0x80] 0)" by code_simp
  show ?thesis
    using a b c
      C2_naive_accepts_well_formed [of "[0xE0, 0xA0, 0x80, 0x41]" 0]
      C2_naive_accepts_well_formed [of "[0xE0, 0x80, 0x80]" 0]
      C2_naive_accepts_well_formed [of "[0xF1, 0x80, 0x80]" 0]
    by blast
qed

section \<open>The vector loop\<close>

lemma int32_byte_extract:
  "int32_byte (mm256_extract_epi32 a 7) 3 = a ! 31"
  "int32_byte (mm256_extract_epi32 a 7) 2 = a ! 30"
  "int32_byte (mm256_extract_epi32 a 7) 1 = a ! 29"
  unfolding int32_byte_def mm256_extract_epi32_def
  by (rule bit_word_eqI; auto simp add: bit_simps dest: bit_imp_le_length)+

lemma lookahead_of_eq:
  "lookahead_of prev =
     (if prev ! 31 < 0x80 \<or> 0xBF < prev ! 31 then 1
      else if prev ! 30 < 0x80 \<or> 0xBF < prev ! 30 then 2
      else if prev ! 29 < 0x80 \<or> 0xBF < prev ! 29 then 3
      else 0)"
  unfolding lookahead_of_def Let_def int32_byte_extract sless_BF by simp

lemma length_range_index:
  "length pfl = 32 \<Longrightarrow> length input = 32 \<Longrightarrow> length (range_index pfl input) = 32"
  by (simp add: range_index_def Let_def shuffle_dup tbl_dup push_last_byte_eq
        push_last_2bytes_eq push_last_3bytes_eq high_nibbles_of_map mm256_or_si256_def
        mm256_subs_epu8_def mm256_set1_epi8_def)

lemma block_error_nth:
  assumes "length prev = 32" and "length input = 32" and "i < 32"
  shows "block_error prev (map first_len_byte prev) input ! i =
           lane_error (lane_range ((prev @ input) ! (29 + i)) ((prev @ input) ! (30 + i))
                          ((prev @ input) ! (31 + i)) (input ! i)) (input ! i)"
  using assms
  by (simp add: block_error_def range_error_nth mm256_add_epi8_def length_range_index
        length_range_adjust range_index_nth range_adjust_nth lane_range_def)

lemma length_block_error:
  "length prev = 32 \<Longrightarrow> length pfl = 32 \<Longrightarrow> length input = 32 \<Longrightarrow>
   length (block_error prev pfl input) = 32"
  by (simp add: block_error_def range_error_def Let_def shuffle_dup tbl_dup
        mm256_add_epi8_def length_range_index length_range_adjust mm256_or_si256_def
        mm256_cmpgt_epi8_def)

lemma testz_self:
  "mm256_testz_si256 e e = (\<forall>i < length e. e ! i = 0)"
  by (simp add: mm256_testz_si256_def list_all_length)

lemma block_accept_iff:
  assumes "length prev = 32" and "length input = 32"
  shows "mm256_testz_si256 (block_error prev (map first_len_byte prev) input)
           (block_error prev (map first_len_byte prev) input) =
         (\<forall>i < 32. lane_ok_at (prev @ input) (32 + i))"
  using assms
  by (simp add: testz_self length_block_error block_error_nth lane_ok_at_def nth_append
        add.commute)

lemma first_len_byte_0: "first_len_byte 0 = 0"
  by (simp add: first_len_byte_eq)

lemma vst_0:
  "vst buf 0 = \<lparr>data = 0, len = length buf, err_idx = 1,
      prev_input = mm256_set1_epi8 0, prev_first_len = mm256_set1_epi8 0\<rparr>"
  by (simp add: vst_def padded_def mm256_set1_epi8_def first_len_byte_0)

lemma padded_window:
  assumes "32 * (k + 1) \<le> length buf"
  shows "take 32 (drop (32 * k) (padded buf)) @ take 32 (drop (32 * k) buf)
           = take 64 (drop (32 * k) (padded buf))"
    and "take 32 (drop (32 * k) buf) = take 32 (drop (32 * (k + 1)) (padded buf))"
proof -
  show b: "take 32 (drop (32 * k) buf) = take 32 (drop (32 * (k + 1)) (padded buf))"
    by (simp add: padded_def)
  have "take 64 (drop (32 * k) (padded buf)) =
          take 32 (drop (32 * k) (padded buf)) @ take 32 (drop 32 (drop (32 * k) (padded buf)))"
    using take_add [of 32 32 "drop (32 * k) (padded buf)"] by simp
  also have "drop 32 (drop (32 * k) (padded buf)) = drop (32 * (k + 1)) (padded buf)"
    by (simp add: add.commute)
  finally show "take 32 (drop (32 * k) (padded buf)) @ take 32 (drop (32 * k) buf)
           = take 64 (drop (32 * k) (padded buf))"
    using b by simp
qed

lemma vector_loop_step:
  assumes "32 * (k + 1) \<le> length buf"
  shows "vector_loop buf (vst buf k) =
           (if block_ok buf k then vector_loop buf (vst buf (k + 1)) else vst buf k)"
proof -
  let ?Z = "padded buf"
  let ?prev = "take 32 (drop (32 * k) ?Z)"
  let ?input = "take 32 (drop (32 * k) buf)"
  have lZ: "length ?Z = 32 + length buf" by (simp add: padded_def)
  have lp: "length ?prev = 32" using assms lZ by simp
  have li: "length ?input = 32" using assms by simp
  have acc: "mm256_testz_si256 (block_error ?prev (map first_len_byte ?prev) ?input)
           (block_error ?prev (map first_len_byte ?prev) ?input) = block_ok buf k"
  proof -
    have "\<And>i. i < 32 \<Longrightarrow>
            lane_ok_at (take 64 (drop (32 * k) ?Z)) (32 + i) = lane_ok_at ?Z (32 + 32 * k + i)"
      using assms lZ by (simp add: lane_ok_at_def ac_simps)
    then show ?thesis
      unfolding block_accept_iff [OF lp li] padded_window(1) [OF assms] block_ok_def
      by simp
  qed
  have nxt: "\<lparr>data = 32 * k + 32, len = length buf - 32 * k - 32,
              err_idx = 1 + 32 * of_nat k + 32,
              prev_input = ?input, prev_first_len = first_len_of ?input\<rparr> = vst buf (k + 1)"
    using padded_window(2) [OF assms] li
    by (simp add: vst_def first_len_of_map algebra_simps)
  have ge: "32 \<le> length buf - 32 * k" using assms by simp
  show ?thesis
    apply (subst vector_loop.simps)
    apply (simp only: vst_def vstate.simps mm256_loadu_si256_def Let_def ge if_True acc)
    apply (simp only: nxt [unfolded vst_def] flip: vst_def)
    apply (simp add: vst_def)
    done
qed

lemma vector_loop_stop:
  assumes "length buf < 32 * (k + 1)"
  shows "vector_loop buf (vst buf k) = vst buf k"
proof -
  have "\<not> 32 \<le> len (vst buf k)" using assms by (simp add: vst_def)
  then show ?thesis by (subst vector_loop.simps) simp
qed

lemma vector_loop_from:
  "\<exists>K \<ge> k. vector_loop buf (vst buf k) = vst buf K \<and>
      (\<forall>j. k \<le> j \<and> j < K \<longrightarrow> 32 * (j + 1) \<le> length buf \<and> block_ok buf j) \<and>
      (32 * (K + 1) \<le> length buf \<longrightarrow> \<not> block_ok buf K)"
proof (induction "length buf - 32 * k" arbitrary: k rule: less_induct)
  case less
  show ?case
  proof (cases "32 * (k + 1) \<le> length buf \<and> block_ok buf k")
    case False
    then have "vector_loop buf (vst buf k) = vst buf k"
      using vector_loop_step [of k buf] vector_loop_stop [of buf k] by (cases "32 * (k + 1) \<le> length buf") auto
    then show ?thesis using False by (intro exI [where x = k]) auto
  next
    case True
    then have step: "vector_loop buf (vst buf k) = vector_loop buf (vst buf (k + 1))"
      using vector_loop_step [of k buf] by simp
    have "length buf - 32 * (k + 1) < length buf - 32 * k" using True by auto
    from less.hyps [OF this] obtain K where K: "k + 1 \<le> K"
      "vector_loop buf (vst buf (k + 1)) = vst buf K"
      "\<forall>j. k + 1 \<le> j \<and> j < K \<longrightarrow> 32 * (j + 1) \<le> length buf \<and> block_ok buf j"
      "32 * (K + 1) \<le> length buf \<longrightarrow> \<not> block_ok buf K"
      by blast
    have "\<forall>j. k \<le> j \<and> j < K \<longrightarrow> 32 * (j + 1) \<le> length buf \<and> block_ok buf j"
    proof (intro allI impI)
      fix j assume j: "k \<le> j \<and> j < K"
      show "32 * (j + 1) \<le> length buf \<and> block_ok buf j"
      proof (cases "j = k")
        case True
        then show ?thesis using \<open>32 * (k + 1) \<le> length buf \<and> block_ok buf k\<close> by simp
      next
        case False
        then have "k + 1 \<le> j \<and> j < K" using j by simp
        then show ?thesis using K(3) by blast
      qed
    qed
    then show ?thesis using K(1,2,4) step by (intro exI [where x = K]) auto
  qed
qed

section \<open>Buffers of ASCII bytes\<close>

lemma byte_less_neq: "(c :: byte) < 0x80 \<Longrightarrow> c \<noteq> 0xE0 \<and> c \<noteq> 0xED \<and> c \<noteq> 0xF0 \<and> c \<noteq> 0xF4 \<and> c < 0xC0"
  by (auto simp add: word_less_nat_alt)

lemma subs_u8_0: "subs_u8 0 y = 0"
  by (cases "y = 0") (simp_all add: subs_u8_def word_gt_0)

lemma lane_range_plain:
  "c3 < 0x80 \<Longrightarrow> c2 < 0x80 \<Longrightarrow> c1 < 0x80 \<Longrightarrow> lane_range c3 c2 c1 x = first_range_byte x"
  using byte_less_neq [of c1] byte_less_neq [of c2] byte_less_neq [of c3]
  by (simp add: lane_range_def first_len_byte_eq df_ee_byte_eq ef_fe_byte_eq subs_u8_0)

lemma lane_error_0: "(lane_error 0 x = 0) = (x \<le> 0x7F)"
  using lane_error_eq [of 0 x] by (simp add: in_range_def)

lemma lane_error_8: "(lane_error 8 x = 0) = (0xC2 \<le> x \<and> x \<le> 0xF4)"
  using lane_error_eq [of 8 x] by (simp add: in_range_def)

lemma lane_ok_simple:
  assumes "c3 < 0x80" and "c2 < 0x80" and "c1 < 0x80"
    and "x < 0x80 \<or> (0xC2 \<le> x \<and> x \<le> 0xF4)"
  shows "lane_error (lane_range c3 c2 c1 x) x = 0"
proof (cases "x < 0x80")
  case True
  then have "x < 0xC0" "x \<le> 0x7F" by (simp_all add: word_less_nat_alt word_le_nat_alt)
  then show ?thesis
    by (simp add: lane_range_plain [OF assms(1-3)] first_range_byte_eq lane_error_0)
next
  case False
  then have x: "0xC2 \<le> x \<and> x \<le> 0xF4" using assms(4) by simp
  then have "\<not> x < 0xC0" by (simp add: word_less_nat_alt word_le_nat_alt)
  then show ?thesis using x
    by (simp add: lane_range_plain [OF assms(1-3)] first_range_byte_eq lane_error_8)
qed

lemma padded_nth: "padded buf ! q = (if q < 32 then 0 else buf ! (q - 32))"
  by (simp add: padded_def nth_append)

lemma block_ok_ascii:
  assumes asc: "\<forall>j < 32 * k + 31. buf ! j < 0x80"
    and last: "buf ! (32 * k + 31) < 0x80 \<or> (0xC2 \<le> buf ! (32 * k + 31) \<and> buf ! (32 * k + 31) \<le> 0xF4)"
  shows "block_ok buf k"
  unfolding block_ok_def lane_ok_at_def
proof (intro allI impI)
  fix i :: nat assume i: "i < 32"
  let ?q = "32 + 32 * k + i"
  have p: "\<And>j. 1 \<le> j \<Longrightarrow> j \<le> 3 \<Longrightarrow> padded buf ! (?q - j) < 0x80"
  proof -
    fix j :: nat assume j: "1 \<le> j" "j \<le> 3"
    show "padded buf ! (?q - j) < 0x80"
    proof (cases "?q - j < 32")
      case True
      then show ?thesis by (simp add: padded_nth)
    next
      case False
      then have "?q - j - 32 < 32 * k + 31" using i j by simp
      then show ?thesis using False asc by (simp add: padded_nth)
    qed
  qed
  have x: "padded buf ! ?q < 0x80 \<or> (0xC2 \<le> padded buf ! ?q \<and> padded buf ! ?q \<le> 0xF4)"
  proof (cases "i = 31")
    case True
    then show ?thesis using last by (simp add: padded_nth ac_simps)
  next
    case False
    then have "32 * k + i < 32 * k + 31" using i by simp
    then have "buf ! (32 * k + i) < 0x80" using asc by blast
    then show ?thesis by (simp add: padded_nth)
  qed
  show "lane_error
          (lane_range (padded buf ! (?q - 3)) (padded buf ! (?q - 2)) (padded buf ! (?q - 1))
            (padded buf ! ?q)) (padded buf ! ?q) = 0"
    using p [of 3] p [of 2] p [of 1] x by (intro lane_ok_simple) simp_all
qed

lemma vector_loop_exact:
  assumes ok: "\<forall>j < K. block_ok buf j" and le: "32 * K \<le> length buf"
    and stop: "32 * (K + 1) \<le> length buf \<longrightarrow> \<not> block_ok buf K"
  shows "vector_loop buf (vst buf 0) = vst buf K"
proof -
  obtain K' where K': "vector_loop buf (vst buf 0) = vst buf K'"
    "\<forall>j. j < K' \<longrightarrow> 32 * (j + 1) \<le> length buf \<and> block_ok buf j"
    "32 * (K' + 1) \<le> length buf \<longrightarrow> \<not> block_ok buf K'"
    using vector_loop_from [of 0 buf] by auto
  have "\<not> K' < K"
  proof
    assume a: "K' < K"
    then have "block_ok buf K'" using ok by blast
    moreover have "32 * (K' + 1) \<le> length buf" using a le by simp
    ultimately show False using K'(3) by blast
  qed
  moreover have "\<not> K < K'"
  proof
    assume "K < K'"
    then have "32 * (K + 1) \<le> length buf \<and> block_ok buf K" using K'(2) by blast
    then show False using stop by blast
  qed
  ultimately have "K' = K" by simp
  then show ?thesis using K'(1) by simp
qed

lemma well_formed_append: "well_formed xs \<Longrightarrow> well_formed ys \<Longrightarrow> well_formed (xs @ ys)"
proof (induction xs rule: well_formed.induct)
  case wf_empty
  then show ?case by simp
next
  case (wf_append q r)
  have "well_formed (r @ ys)" using wf_append.prems by (rule wf_append.IH)
  with wf_append.hyps(1) have "well_formed (q @ (r @ ys))" by (rule well_formed.wf_append)
  then show ?case by simp
qed

lemma well_formed_ascii: "\<forall>x \<in> set xs. x \<le> 0x7F \<Longrightarrow> well_formed xs"
proof (induction xs)
  case Nil
  show ?case by (rule well_formed.wf_empty)
next
  case (Cons x xs)
  then have "wf_sequence [x]" "well_formed xs" by simp_all
  then have "well_formed ([x] @ xs)" by (rule well_formed.wf_append)
  then show ?case by simp
qed

lemma block_ok_A:
  assumes "32 * k + 31 < N"
  shows "block_ok (replicate N 0x41 @ tail) k"
proof (rule block_ok_ascii)
  show "\<forall>j < 32 * k + 31. (replicate N 0x41 @ tail) ! j < (0x80 :: byte)"
    using assms by (simp add: nth_append)
  show "(replicate N 0x41 @ tail) ! (32 * k + 31) < (0x80 :: byte) \<or>
        0xC2 \<le> (replicate N 0x41 @ tail) ! (32 * k + 31) \<and>
        (replicate N 0x41 @ tail) ! (32 * k + 31) \<le> (0xF4 :: byte)"
    using assms by (simp add: nth_append)
qed

lemma block_ok_A_lead:
  assumes "32 * k + 31 = N"
  shows "block_ok (replicate N 0x41 @ 0xC2 # tail) k"
proof (rule block_ok_ascii)
  show "\<forall>j < 32 * k + 31. (replicate N 0x41 @ 0xC2 # tail) ! j < (0x80 :: byte)"
    using assms by (simp add: nth_append)
  show "(replicate N 0x41 @ 0xC2 # tail) ! (32 * k + 31) < (0x80 :: byte) \<or>
        0xC2 \<le> (replicate N 0x41 @ 0xC2 # tail) ! (32 * k + 31) \<and>
        (replicate N 0x41 @ 0xC2 # tail) ! (32 * k + 31) \<le> (0xF4 :: byte)"
    using assms by (simp add: nth_append)
qed

lemma vector_loop_A:
  assumes "length tail < 32"
  shows "vector_loop (replicate (32 * K) 0x41 @ tail) (vst (replicate (32 * K) 0x41 @ tail) 0)
           = vst (replicate (32 * K) 0x41 @ tail) K"
proof (rule vector_loop_exact)
  show "\<forall>j < K. block_ok (replicate (32 * K) 0x41 @ tail) j"
    by (auto intro!: block_ok_A)
  show "32 * K \<le> length (replicate (32 * K) (0x41 :: byte) @ tail)" by simp
  show "32 * (K + 1) \<le> length (replicate (32 * K) (0x41 :: byte) @ tail) \<longrightarrow>
        \<not> block_ok (replicate (32 * K) 0x41 @ tail) K"
    using assms by simp
qed

lemma pow_split: "(2 :: nat) ^ 31 = 32 * 2 ^ 26" "(2 :: nat) ^ 32 = 32 * 2 ^ 27"
  by simp_all

section \<open>The \<^verbatim>\<open>int\<close> counter on large buffers (claims C5, C1, C3, C9)\<close>

text \<open>
  Claim C5.  On a buffer of \<open>2 ^ 31\<close> ASCII bytes the vector loop accepts all \<open>2 ^ 26\<close>
  blocks, and the last \<^verbatim>\<open>err_idx += 32\<close> exceeds the largest \<^verbatim>\<open>int\<close>: the counter, which
  should be \<open>2 ^ 31 + 1\<close>, reads as a negative number.
\<close>

theorem C5_err_idx_overflow:
  "(let buf = replicate (2 ^ 31) (0x41 :: byte);
        st = vector_loop buf \<lparr>data = 0, len = length buf, err_idx = 1,
               prev_input = mm256_set1_epi8 0, prev_first_len = mm256_set1_epi8 0\<rparr>
    in data st = 2 ^ 31 \<and> len st = 0 \<and> sint (err_idx st) = - 2147483647)"
proof -
  have "vector_loop (replicate (32 * 2 ^ 26) 0x41 @ []) (vst (replicate (32 * 2 ^ 26) 0x41 @ []) 0)
           = vst (replicate (32 * 2 ^ 26) 0x41 @ []) (2 ^ 26)"
    by (rule vector_loop_A) simp
  then have "vector_loop (replicate (2 ^ 31) 0x41) (vst (replicate (2 ^ 31) 0x41) 0)
           = vst (replicate (2 ^ 31) 0x41) (2 ^ 26)"
    by (simp only: pow_split [symmetric] append_Nil2)
  then show ?thesis
    by (simp add: Let_def vst_0 [symmetric]) (simp add: vst_def)
qed

lemma vector_phase_A:
  assumes "length tail < 32" and "1 \<le> K" and "(1 + 32 * of_nat K :: c_int) \<noteq> 1"
  shows "vector_phase (replicate (32 * K) 0x41 @ tail) =
           \<lparr>data = 32 * K - 1, len = length tail + 1, err_idx = 32 * of_nat K,
            prev_input = replicate 32 0x41,
            prev_first_len = map first_len_byte (replicate 32 0x41)\<rparr>"
proof -
  let ?buf = "replicate (32 * K) (0x41 :: byte) @ tail"
  have k: "32 * K - (32 * K - 32) = 32" using assms(2) by simp
  have prev: "take 32 (drop (32 * K) (padded ?buf)) = replicate 32 0x41"
    using assms(2) by (simp add: padded_def k)
  have st: "vector_loop ?buf (vst ?buf 0) = vst ?buf K"
    using assms(1) by (rule vector_loop_A)
  have ge: "32 \<le> length ?buf" using assms(2) by simp
  show ?thesis
    unfolding vector_phase_def Let_def vst_0 [symmetric] st
    using ge assms(3)
    by (simp add: vst_def prev rewind_def lookahead_of_eq)
qed

lemma naive_A_append:
  "utf8_valid_naive_loop (replicate N 0x41 @ b) acc e = utf8_valid_naive_loop b (acc + of_nat N) e"
  using naive_loop_wf_append [of "replicate N 0x41" b acc e]
  by (simp add: well_formed_ascii)

lemma naive_80: "utf8_valid_naive_loop (0x80 # xs) acc e = (False, acc)"
proof -
  have "naive_bytes (0x80 # xs) = 0"
    by (cases xs rule: wf_sequence.cases) (simp_all add: naive_bytes_def)
  then show ?thesis by (subst naive_loop_unfold) simp
qed

text \<open>
  Claim C1.  On \<open>2 ^ 31\<close> ASCII bytes followed by the byte 80 both validators reject, the
  scalar one with index \<open>2 ^ 31\<close>, the vector one with the index \<open>2 ^ 64 - 2 ^ 31\<close>: the
  wrapped \<^verbatim>\<open>int\<close> counter is sign-extended in \<^verbatim>\<open>err_idx + err_idx2 - 1\<close>.
\<close>

theorem C1_differs_at_2GiB:
  "(let s = replicate (2 ^ 31) (0x41 :: byte) @ [0x80]
    in utf8_valid s err_idx2 error_index = (False, 0xFFFFFFFF80000000) \<and>
       utf8_valid_naive s error_index = (False, 0x80000000))"
proof -
  let ?s = "replicate (2 ^ 31) (0x41 :: byte) @ [0x80]"
  have vp: "vector_phase (replicate (32 * 2 ^ 26) 0x41 @ [0x80]) =
           \<lparr>data = 32 * 2 ^ 26 - 1, len = length [0x80 :: byte] + 1, err_idx = 32 * of_nat (2 ^ 26),
            prev_input = replicate 32 0x41,
            prev_first_len = map first_len_byte (replicate 32 0x41)\<rparr>"
    by (rule vector_phase_A) simp_all
  have d: "drop (2 ^ 31 - 1) ?s = [0x41, 0x80]"
    by simp
  have n1: "utf8_valid_naive [0x41, 0x80] err_idx2 = (False, 1)"
    using naive_A_append [of 1 "[0x80]" 0 err_idx2]
    by (simp add: utf8_valid_naive_def naive_80)
  have a: "utf8_valid ?s err_idx2 error_index = (False, 0xFFFFFFFF80000000)"
    unfolding utf8_valid_def Let_def pow_split vp
    apply (simp only: vstate.simps pow_split [symmetric] d)
    apply (simp add: n1)
    done
  have b: "utf8_valid_naive ?s error_index = (False, 0x80000000)"
    by (simp add: utf8_valid_naive_def naive_A_append naive_80)
  show ?thesis unfolding Let_def using a b by simp
qed

lemma naive_E0_80: "utf8_valid_naive_loop [0xE0, 0x80] acc e = (False, acc)"
proof -
  have "naive_bytes [0xE0, 0x80] = 0" by (simp add: naive_bytes_def)
  then show ?thesis by (subst naive_loop_unfold) simp
qed

text \<open>
  Claim C3.  On \<open>2 ^ 31\<close> ASCII bytes followed by E0 80 the first malformed sequence
  starts at offset \<open>2 ^ 31\<close>, which the scalar validator reports; the index stored by
  \<^verbatim>\<open>utf8_valid\<close> is \<open>2 ^ 64 - 2 ^ 31\<close>.
\<close>

theorem C3_wrong_index_at_2GiB:
  "(let s = replicate (2 ^ 31) (0x41 :: byte) @ [0xE0, 0x80]
    in first_malformed s (2 ^ 31) \<and>
       utf8_valid_naive s error_index = (False, 2 ^ 31) \<and>
       utf8_valid s err_idx2 error_index = (False, 0xFFFFFFFF80000000) \<and>
       unat (0xFFFFFFFF80000000 :: size_t) \<noteq> 2 ^ 31)"
proof -
  let ?s = "replicate (2 ^ 31) (0x41 :: byte) @ [0xE0, 0x80]"
  have vp: "vector_phase (replicate (32 * 2 ^ 26) 0x41 @ [0xE0, 0x80]) =
           \<lparr>data = 32 * 2 ^ 26 - 1, len = length [0xE0, 0x80 :: byte] + 1,
            err_idx = 32 * of_nat (2 ^ 26),
            prev_input = replicate 32 0x41,
            prev_first_len = map first_len_byte (replicate 32 0x41)\<rparr>"
    by (rule vector_phase_A) simp_all
  have d: "drop (2 ^ 31 - 1) ?s = [0x41, 0xE0, 0x80]"
    by simp
  have n1: "utf8_valid_naive [0x41, 0xE0, 0x80] err_idx2 = (False, 1)"
    using naive_A_append [of 1 "[0xE0, 0x80]" 0 err_idx2]
    by (simp add: utf8_valid_naive_def naive_E0_80)
  have a: "utf8_valid ?s err_idx2 error_index = (False, 0xFFFFFFFF80000000)"
    unfolding utf8_valid_def Let_def pow_split vp
    apply (simp only: vstate.simps pow_split [symmetric] d)
    apply (simp add: n1)
    done
  have b: "utf8_valid_naive ?s error_index = (False, 2 ^ 31)"
    by (simp add: utf8_valid_naive_def naive_A_append naive_E0_80)
  have "naive_bytes [0xE0, 0x80] = 0" by (simp add: naive_bytes_def)
  then have "\<forall>k. \<not> wf_sequence (take k [0xE0, 0x80])"
    using naive_bytes_zero by blast
  then have c: "first_malformed ?s (2 ^ 31)"
    by (simp add: first_malformed_def well_formed_ascii)
  have e: "unat (0xFFFFFFFF80000000 :: size_t) \<noteq> 2 ^ 31" by simp
  show ?thesis unfolding Let_def using a b c e by blast
qed

lemma vector_loop_A_lead:
  assumes "1 \<le> K"
  shows "vector_loop (replicate (32 * K - 1) 0x41 @ [0xC2, 0x80])
           (vst (replicate (32 * K - 1) 0x41 @ [0xC2, 0x80]) 0)
           = vst (replicate (32 * K - 1) 0x41 @ [0xC2, 0x80]) K"
proof (rule vector_loop_exact)
  show "\<forall>j < K. block_ok (replicate (32 * K - 1) 0x41 @ [0xC2, 0x80]) j"
  proof (intro allI impI)
    fix j assume j: "j < K"
    show "block_ok (replicate (32 * K - 1) 0x41 @ [0xC2, 0x80]) j"
    proof (cases "j + 1 = K")
      case True
      then have "32 * j + 31 = 32 * K - 1" by auto
      then show ?thesis by (rule block_ok_A_lead)
    next
      case False
      then have "32 * j + 31 < 32 * K - 1" using j by auto
      then show ?thesis by (rule block_ok_A)
    qed
  qed
  show "32 * K \<le> length (replicate (32 * K - 1) (0x41 :: byte) @ [0xC2, 0x80])"
    using assms by simp
  show "32 * (K + 1) \<le> length (replicate (32 * K - 1) (0x41 :: byte) @ [0xC2, 0x80]) \<longrightarrow>
        \<not> block_ok (replicate (32 * K - 1) 0x41 @ [0xC2, 0x80]) K"
    using assms by simp
qed

text \<open>
  Claim C9.  \<^verbatim>\<open>utf8_valid\<close> accepts the buffer \<open>a\<close> of \<open>2 ^ 32 - 1\<close> ASCII bytes and the
  buffer \<open>b = C2 80\<close>, and rejects their concatenation, which is well-formed: after
  \<open>2 ^ 27\<close> accepted blocks the counter has wrapped to its initial value 1, the rewind is
  skipped, and the scalar validator starts on the continuation byte.
\<close>

theorem C9_concatenation_rejected_at_4GiB:
  "(let a = replicate (2 ^ 32 - 1) (0x41 :: byte); b = [0xC2, 0x80]
    in fst (utf8_valid a err_idx2 error_index) \<and>
       fst (utf8_valid b err_idx2 error_index) \<and>
       utf8_valid (a @ b) err_idx2 error_index = (False, 0) \<and>
       well_formed (a @ b))"
proof -
  let ?a = "replicate (2 ^ 32 - 1) (0x41 :: byte)"
  let ?b = "[0xC2, 0x80 :: byte]"
  have a_split: "?a = replicate (32 * (2 ^ 27 - 1)) 0x41 @ replicate 31 0x41"
    by (simp flip: replicate_add)
  have vp: "vector_phase (replicate (32 * (2 ^ 27 - 1)) 0x41 @ replicate 31 0x41) =
           \<lparr>data = 32 * (2 ^ 27 - 1) - 1, len = length (replicate 31 (0x41 :: byte)) + 1,
            err_idx = 32 * of_nat (2 ^ 27 - 1),
            prev_input = replicate 32 0x41,
            prev_first_len = map first_len_byte (replicate 32 0x41)\<rparr>"
    by (rule vector_phase_A) simp_all
  have da: "take 32 (drop (32 * (2 ^ 27 - 1) - 1) ?a) = replicate 32 0x41"
    by simp
  have ra: "fst (utf8_valid ?a err_idx2 error_index)"
    apply (subst a_split)
    unfolding utf8_valid_def Let_def vp
    apply (simp only: vstate.simps a_split [symmetric])
    apply (simp add: da utf8_valid_naive_def naive_loop_wf well_formed_ascii)
    done
  have wb: "well_formed ?b"
    using well_formed.wf_append [of ?b "[]"] by (simp add: well_formed.wf_empty)
  have rb: "fst (utf8_valid ?b err_idx2 error_index)"
    by (simp add: utf8_valid_def vector_phase_def Let_def utf8_valid_naive_def naive_loop_wf wb)
  have ab: "?a @ ?b = replicate (32 * 2 ^ 27 - 1) 0x41 @ [0xC2, 0x80]" by simp
  have st: "vector_loop (replicate (32 * 2 ^ 27 - 1) 0x41 @ [0xC2, 0x80])
           (vst (replicate (32 * 2 ^ 27 - 1) 0x41 @ [0xC2, 0x80]) 0)
           = vst (replicate (32 * 2 ^ 27 - 1) 0x41 @ [0xC2, 0x80]) (2 ^ 27)"
    by (rule vector_loop_A_lead) simp
  have dab: "drop (2 ^ 32) (?a @ ?b) = [0x80]" by simp
  have rab: "utf8_valid (?a @ ?b) err_idx2 error_index = (False, 0)"
    unfolding ab utf8_valid_def vector_phase_def Let_def vst_0 [symmetric] st
    apply (simp only: ab [symmetric])
    apply (simp add: vst_def dab utf8_valid_naive_def naive_80)
    done
  have wab: "well_formed (?a @ ?b)"
  proof (rule well_formed_append)
    show "well_formed ?a" by (simp add: well_formed_ascii)
    show "well_formed ?b" by (rule wb)
  qed
  show ?thesis unfolding Let_def using ra rb rab wab by blast
qed

section \<open>The rewind (claim C4)\<close>

lemma lookahead_of_bytes: "lookahead_of prev = of_nat (lookahead_bytes prev)"
  by (simp add: lookahead_of_eq lookahead_bytes_def non_continuation_def)

lemma lookahead_bytes_le: "lookahead_bytes prev \<le> 3"
  by (simp add: lookahead_bytes_def)

lemma unat_lookahead: "unat (lookahead_of prev) = lookahead_bytes prev"
  by (simp add: lookahead_of_eq lookahead_bytes_def non_continuation_def)

lemma err_idx_not_sentinel:
  assumes "1 \<le> K" and "32 * K < 2 ^ 32"
  shows "(1 + 32 * of_nat K :: c_int) \<noteq> 1"
proof
  assume "(1 + 32 * of_nat K :: c_int) = 1"
  then have "(of_nat (32 * K) :: c_int) = 0" by simp
  then have "2 ^ 32 dvd 32 * K" by (simp only: word_of_nat_eq_0_iff) simp
  then have "2 ^ 32 \<le> 32 * K" using assms(1) by (intro dvd_imp_le) simp_all
  then show False using assms(2) by simp
qed

text \<open>
  Claim C4, amended.  When the vector loop exits after accepting at least one block, on a
  buffer of less than \<open>2 ^ 32\<close> bytes, \<^verbatim>\<open>prev_input\<close> is the last accepted block; the last
  three of its bytes decide the distance \<open>lookahead_bytes\<close> (1, 2 or 3 down to and including
  the rightmost byte that is not a continuation, 0 when all three are continuations); the
  cursor is rewound by that distance, which never passes the start of the buffer, the
  remaining length grows by it and \<^verbatim>\<open>err_idx\<close> is decremented by it.
\<close>

theorem C4_rewind_amended:
  assumes "32 \<le> length buf" and "length buf < 2 ^ 32"
    and "st = vector_loop buf \<lparr>data = 0, len = length buf, err_idx = 1,
               prev_input = mm256_set1_epi8 0, prev_first_len = mm256_set1_epi8 0\<rparr>"
    and "data st \<noteq> 0"
  shows "prev_input st = take 32 (drop (data st - 32) buf) \<and>
         lookahead_bytes (prev_input st) \<le> data st \<and>
         vector_phase buf =
           st\<lparr>data := data st - lookahead_bytes (prev_input st),
              len := len st + lookahead_bytes (prev_input st),
              err_idx := err_idx st - of_nat (lookahead_bytes (prev_input st))\<rparr>"
proof -
  obtain K where K: "vector_loop buf (vst buf 0) = vst buf K"
    "\<forall>j. j < K \<longrightarrow> 32 * (j + 1) \<le> length buf \<and> block_ok buf j"
    using vector_loop_from [of 0 buf] by auto
  have st: "st = vst buf K" using assms(3) K(1) by (simp add: vst_0)
  have K1: "1 \<le> K" using assms(4) st by (cases K) (simp_all add: vst_def)
  then have "K - 1 < K" by simp
  then have le: "32 * K \<le> length buf" using K(2) K1 by (metis le_add_diff_inverse2)
  have ne: "err_idx st \<noteq> 1"
    using err_idx_not_sentinel [OF K1] le assms(2) by (simp add: st vst_def)
  have k32: "32 * K - 32 + 32 = 32 * K" using K1 by simp
  have p: "prev_input st = take 32 (drop (data st - 32) buf)"
    using K1 by (simp add: st vst_def padded_def)
  have l: "lookahead_bytes (prev_input st) \<le> data st"
    using lookahead_bytes_le [of "prev_input st"] K1 by (simp add: st vst_def)
  have v: "vector_phase buf =
           st\<lparr>data := data st - lookahead_bytes (prev_input st),
              len := len st + lookahead_bytes (prev_input st),
              err_idx := err_idx st - of_nat (lookahead_bytes (prev_input st))\<rparr>"
    using assms(1) ne
    by (simp add: vector_phase_def Let_def assms(3) [symmetric] rewind_def unat_lookahead)
       (simp add: lookahead_of_bytes)
  show ?thesis using p l v by blast
qed

lemma ex_loop:
  "vector_loop (replicate 31 0x41 @ [0xC3, 0xA9])
     \<lparr>data = 0, len = 33, err_idx = 1,
      prev_input = mm256_set1_epi8 0, prev_first_len = mm256_set1_epi8 0\<rparr> =
   \<lparr>data = 32, len = 1, err_idx = 33,
      prev_input = replicate 31 0x41 @ [0xC3], prev_first_len = replicate 31 0 @ [1]\<rparr>"
  by code_simp

text \<open>
  Claim C4 as stated fails: after the block of 31 ASCII bytes and the lead C3, the
  rightmost non-continuation byte of \<^verbatim>\<open>prev_input\<close> is its last byte, no byte follows it,
  and the cursor is rewound by one byte, from 32 to 31.
\<close>

theorem C4_counterexample:
  "data (vector_phase (replicate 31 0x41 @ [0xC3, 0xA9])) \<noteq>
     data (vector_loop (replicate 31 0x41 @ [0xC3, 0xA9])
           \<lparr>data = 0, len = 33, err_idx = 1,
            prev_input = mm256_set1_epi8 0, prev_first_len = mm256_set1_epi8 0\<rparr>)
     - claimed_lookahead (prev_input (vector_loop (replicate 31 0x41 @ [0xC3, 0xA9])
           \<lparr>data = 0, len = 33, err_idx = 1,
            prev_input = mm256_set1_epi8 0, prev_first_len = mm256_set1_epi8 0\<rparr>)) \<and>
   data (vector_loop (replicate 31 0x41 @ [0xC3, 0xA9])
           \<lparr>data = 0, len = 33, err_idx = 1,
            prev_input = mm256_set1_epi8 0, prev_first_len = mm256_set1_epi8 0\<rparr>) = 32 \<and>
   claimed_lookahead (prev_input (vector_loop (replicate 31 0x41 @ [0xC3, 0xA9])
           \<lparr>data = 0, len = 33, err_idx = 1,
            prev_input = mm256_set1_epi8 0, prev_first_len = mm256_set1_epi8 0\<rparr>)) = 0 \<and>
   data (vector_phase (replicate 31 0x41 @ [0xC3, 0xA9])) = 31"
  unfolding ex_loop
  by code_simp

theorem C4_rewind_amended_witness:
  "32 \<le> length (replicate 31 (0x41 :: byte) @ [0xC3, 0xA9]) \<and>
   length (replicate 31 (0x41 :: byte) @ [0xC3, 0xA9]) < 2 ^ 32 \<and>
   lookahead_bytes (replicate 31 0x41 @ [0xC3]) = 1 \<and>
   vector_phase (replicate 31 0x41 @ [0xC3, 0xA9]) =
     \<lparr>data = 31, len = 2, err_idx = 32,
      prev_input = replicate 31 0x41 @ [0xC3], prev_first_len = replicate 31 0 @ [1]\<rparr>"
  using C4_rewind_amended [of "replicate 31 0x41 @ [0xC3, 0xA9]"
          "\<lparr>data = 32, len = 1, err_idx = 33,
            prev_input = replicate 31 0x41 @ [0xC3], prev_first_len = replicate 31 0 @ [1]\<rparr>"]
  by (simp add: ex_loop lookahead_bytes_def non_continuation_def nth_append)

section \<open>The out-parameter on success (claim C10)\<close>

text \<open>
  Claim C10.  When \<^verbatim>\<open>utf8_valid_naive\<close> or \<^verbatim>\<open>utf8_valid\<close> returns true, the content of
  \<^verbatim>\<open>*error_index\<close> after the call is its content before the call.
\<close>

theorem C10_error_index_untouched_on_success:
  "(fst (utf8_valid_naive p error_index) \<longrightarrow> snd (utf8_valid_naive p error_index) = error_index) \<and>
   (fst (utf8_valid p err_idx2 error_index) \<longrightarrow>
      snd (utf8_valid p err_idx2 error_index) = error_index)"
proof -
  have a: "fst (utf8_valid_naive p error_index) \<longrightarrow>
           snd (utf8_valid_naive p error_index) = error_index"
    using naive_loop_result [of p 0 error_index True "snd (utf8_valid_naive p error_index)"]
    by (cases "utf8_valid_naive p error_index") (auto simp add: utf8_valid_naive_def)
  have b: "fst (utf8_valid p err_idx2 error_index) \<longrightarrow>
             snd (utf8_valid p err_idx2 error_index) = error_index"
    by (simp add: utf8_valid_def Let_def split: prod.splits)
  show ?thesis using a b by blast
qed

theorem C10_error_index_untouched_on_success_witness:
  "utf8_valid_naive [0xC3, 0xA9] 7 = (True, 7) \<and> utf8_valid [0xC3, 0xA9] 5 7 = (True, 7)"
proof -
  have a: "fst (utf8_valid_naive [0xC3, 0xA9] 7)" by code_simp
  have b: "fst (utf8_valid [0xC3, 0xA9] 5 7)" by code_simp
  show ?thesis
    using a b C10_error_index_untouched_on_success [of "[0xC3, 0xA9]" 7 5]
    by (simp add: prod_eq_iff)
qed

section \<open>No read outside the buffer (claim C8)\<close>

lemma rd_drop: "i < length (drop p buf) \<Longrightarrow> rd buf (p + i) = Some (drop p buf ! i)"
  by (simp add: rd_def)

lemma naive_mem_step:
  assumes pn: "p + n = length buf" and n0: "n \<noteq> 0"
    and ih: "\<And>k a. 1 \<le> k \<Longrightarrow> k \<le> n \<Longrightarrow>
               utf8_valid_naive_mem buf (p + k) (n - k) a e =
               Some (utf8_valid_naive_loop (drop k (drop p buf)) a e)"
  shows "utf8_valid_naive_mem buf p n acc e = Some (utf8_valid_naive_loop (drop p buf) acc e)"
proof -
  define d where "d = drop p buf"
  have ld: "length d = n" using pn by (simp add: d_def)
  have ne: "d \<noteq> []" using ld n0 by auto
  have r0: "rd buf p = Some (d ! 0)" using rd_drop [of 0 p buf] ld n0 by (simp add: d_def)
  define A where "A = (d ! 0 \<le> 0x7F)"
  define B where "B = (2 \<le> length d \<and> 0xC2 \<le> d ! 0 \<and> d ! 0 \<le> 0xDF \<and> d ! 1 \<le>s 0xBF)"
  define L3 where "L3 = (3 \<le> length d)"
  define C where "C = (d ! 1 \<le>s 0xBF \<and> d ! 2 \<le>s 0xBF \<and>
               ((d ! 0 = 0xE0 \<and> 0xA0 \<le> d ! 1) \<or>
                (0xE1 \<le> d ! 0 \<and> d ! 0 \<le> 0xEC) \<or>
                (d ! 0 = 0xED \<and> d ! 1 \<le> 0x9F) \<or>
                (0xEE \<le> d ! 0 \<and> d ! 0 \<le> 0xEF)))"
  define L4 where "L4 = (4 \<le> length d)"
  define D where "D = (d ! 1 \<le>s 0xBF \<and> d ! 2 \<le>s 0xBF \<and> d ! 3 \<le>s 0xBF \<and>
                   ((d ! 0 = 0xF0 \<and> 0x90 \<le> d ! 1) \<or>
                    (0xF1 \<le> d ! 0 \<and> d ! 0 \<le> 0xF3) \<or>
                    (d ! 0 = 0xF4 \<and> d ! 1 \<le> 0x8F)))"
  define f where "f = (\<lambda>k a. utf8_valid_naive_loop (drop k d) (acc + a) e)"
  have lp: "utf8_valid_naive_loop d acc e =
     (if A then f 1 1 else if B then f 2 2
      else if L3 then (if C then f 3 3 else if L4 then (if D then f 4 4 else (False, acc)) else (False, acc))
      else (False, acc))"
    by (subst utf8_valid_naive_loop.simps)
       (simp only: ne Let_def A_def B_def L3_def C_def L4_def D_def f_def if_False)
  define g where "g = (\<lambda>k a. utf8_valid_naive_mem buf (p + k) (n - k) (acc + a) e)"
  have gf: "\<And>k a. 1 \<le> k \<Longrightarrow> k \<le> n \<Longrightarrow> g k a = Some (f k a)"
    using ih by (simp add: g_def f_def d_def)
  have B2: "B \<Longrightarrow> 2 \<le> n" by (simp add: B_def ld)
  have mp: "utf8_valid_naive_mem buf p n acc e =
     (if A then g 1 1 else if B then g 2 2
      else if L3 then (if C then g 3 3 else if L4 then (if D then g 4 4 else Some (False, acc)) else Some (False, acc))
      else Some (False, acc))"
  proof (cases "2 \<le> n")
    case False
    then have n1: "n = 1" using n0 by simp
    show ?thesis
      apply (subst utf8_valid_naive_mem.simps)
      apply (simp only: r0 option.case option.map Let_def)
      apply (simp only: flip: A_def)
      apply (simp add: n1 B_def L3_def ld g_def)
      done
  next
    case l2: True
    have r1: "rd buf (p + 1) = Some (d ! 1)" using rd_drop [of 1 p buf] ld l2 by (simp add: d_def)
    show ?thesis
    proof (cases "3 \<le> n")
      case False
      then have n2: "n = 2" using l2 by simp
      show ?thesis
        apply (subst utf8_valid_naive_mem.simps)
        apply (simp only: r0 r1 option.case option.map Let_def)
        apply (simp only: flip: A_def)
        apply (simp add: n2 B_def L3_def ld g_def)
        done
    next
      case l3: True
      have r2: "rd buf (p + 2) = Some (d ! 2)" using rd_drop [of 2 p buf] ld l3 by (simp add: d_def)
      show ?thesis
      proof (cases "4 \<le> n")
        case False
        then have n3: "n = 3" using l3 by simp
        show ?thesis
          apply (subst utf8_valid_naive_mem.simps)
          apply (simp only: r0 r1 r2 option.case option.map Let_def)
          apply (simp only: flip: A_def C_def)
          apply (simp add: n3 B_def L3_def L4_def ld g_def)
          done
      next
        case l4: True
        have r3: "rd buf (p + 3) = Some (d ! 3)" using rd_drop [of 3 p buf] ld l4 by (simp add: d_def)
        show ?thesis
          apply (subst utf8_valid_naive_mem.simps)
          apply (simp only: r0 r1 r2 r3 option.case option.map Let_def)
          apply (simp only: flip: A_def C_def D_def)
          apply (simp add: l2 l3 l4 n0 B_def L3_def L4_def ld g_def)
          done
      qed
    qed
  qed
  have g1: "g (Suc 0) 1 = Some (f (Suc 0) 1)" using gf [of 1 1] n0 by simp
  have g2: "B \<Longrightarrow> g 2 2 = Some (f 2 2)" using gf [of 2 2] B2 by simp
  have g3: "L3 \<Longrightarrow> g 3 3 = Some (f 3 3)" using gf [of 3 3] ld by (simp add: L3_def)
  have g4: "L4 \<Longrightarrow> g 4 4 = Some (f 4 4)" using gf [of 4 4] ld by (simp add: L4_def)
  show ?thesis
    unfolding d_def [symmetric] lp mp
    by (simp add: g1 g2 g3 g4)
qed


lemma naive_mem_eq:
  "p + n = length buf \<Longrightarrow>
   utf8_valid_naive_mem buf p n acc e = Some (utf8_valid_naive_loop (drop p buf) acc e)"
proof (induction n arbitrary: p acc rule: less_induct)
  case (less n)
  show ?case
  proof (cases "n = 0")
    case True
    then show ?thesis using less.prems
      by (subst utf8_valid_naive_mem.simps) (simp add: naive_loop_nil)
  next
    case False
    show ?thesis
    proof (rule naive_mem_step [OF less.prems False])
      fix k :: nat and a assume k: "1 \<le> k" "k \<le> n"
      have "utf8_valid_naive_mem buf (p + k) (n - k) a e =
            Some (utf8_valid_naive_loop (drop (p + k) buf) a e)"
        using k less.prems by (intro less.IH) simp_all
      then show "utf8_valid_naive_mem buf (p + k) (n - k) a e =
            Some (utf8_valid_naive_loop (drop k (drop p buf)) a e)"
        by (simp add: add.commute)
    qed
  qed
qed

lemma vector_loop_mem_eq:
  "data st + len st = length buf \<Longrightarrow> vector_loop_mem buf st = Some (vector_loop buf st)"
proof (induction "len st" arbitrary: st rule: less_induct)
  case less
  show ?case
  proof (cases "32 \<le> len st")
    case False
    then show ?thesis
      by (subst vector_loop_mem.simps, subst vector_loop.simps) simp
  next
    case True
    then have ld: "ld32 buf (data st) = Some (mm256_loadu_si256 (drop (data st) buf))"
      using less.prems by (simp add: ld32_def)
    let ?st' = "\<lparr>data = data st + 32, len = len st - 32, err_idx = err_idx st + 32,
                  prev_input = mm256_loadu_si256 (drop (data st) buf),
                  prev_first_len = first_len_of (mm256_loadu_si256 (drop (data st) buf))\<rparr>"
    have "vector_loop_mem buf ?st' = Some (vector_loop buf ?st')"
      using True less.prems by (intro less.hyps) simp_all
    then show ?thesis
      using True
      by (subst vector_loop_mem.simps, subst vector_loop.simps) (simp add: ld Let_def)
  qed
qed

lemma vector_loop_shape:
  "\<exists>K. vector_loop buf (vst buf 0) = vst buf K \<and> 32 * K \<le> length buf"
proof -
  obtain K where K: "vector_loop buf (vst buf 0) = vst buf K"
    "\<forall>j. j < K \<longrightarrow> 32 * (j + 1) \<le> length buf \<and> block_ok buf j"
    using vector_loop_from [of 0 buf] by auto
  have "32 * K \<le> length buf"
  proof (cases K)
    case 0
    then show ?thesis by simp
  next
    case (Suc j)
    then have "j < K" by simp
    then have "32 * (j + 1) \<le> length buf" using K(2) by blast
    then show ?thesis using Suc by simp
  qed
  then show ?thesis using K(1) by blast
qed

lemma vst_not_sentinel: "err_idx (vst buf K) \<noteq> 1 \<Longrightarrow> K \<noteq> 0"
  by (cases K) (simp_all add: vst_def)

lemma rewind_mem_ok:
  assumes "st = vst buf K" and "err_idx st \<noteq> 1"
  shows "rewind_mem st = Some (rewind st)"
proof -
  have "K \<noteq> 0" using assms vst_not_sentinel [of buf K] by simp
  then have "3 \<le> data st" using assms(1) by (simp add: vst_def)
  then show ?thesis
    using lookahead_bytes_le [of "prev_input st"]
    by (simp add: rewind_mem_def Let_def unat_lookahead)
qed

lemma vector_phase_span:
  "data (vector_phase buf) + len (vector_phase buf) = length buf"
proof -
  obtain K where K: "vector_loop buf (vst buf 0) = vst buf K" "32 * K \<le> length buf"
    using vector_loop_shape by blast
  show ?thesis
  proof (cases "32 \<le> length buf \<and> err_idx (vst buf K) \<noteq> 1")
    case False
    then show ?thesis using K
      by (auto simp add: vector_phase_def Let_def vst_0 [symmetric]) (simp_all add: vst_def)
  next
    case True
    then have "K \<noteq> 0" using vst_not_sentinel [of buf K] by simp
    then have "3 \<le> 32 * K" by simp
    then show ?thesis using True K lookahead_bytes_le [of "prev_input (vst buf K)"]
      by (simp add: vector_phase_def Let_def vst_0 [symmetric] rewind_def unat_lookahead)
         (simp add: vst_def)
  qed
qed

text \<open>
  Claim C8.  Called on a buffer with its length, neither validator reads outside the
  buffer: with every access checked, both return a result, and it is the result of the
  validator itself.
\<close>

theorem C8_no_read_outside_buffer:
  "utf8_valid_naive_mem p 0 (length p) 0 error_index = Some (utf8_valid_naive p error_index) \<and>
   utf8_valid_mem p err_idx2 error_index = Some (utf8_valid p err_idx2 error_index)"
proof -
  have a: "utf8_valid_naive_mem p 0 (length p) 0 error_index = Some (utf8_valid_naive p error_index)"
    using naive_mem_eq [of 0 "length p" p 0 error_index] by (simp add: utf8_valid_naive_def)
  obtain K where K: "vector_loop p (vst p 0) = vst p K" "32 * K \<le> length p"
    using vector_loop_shape by blast
  have lm: "vector_loop_mem p (vst p 0) = Some (vst p K)"
    using vector_loop_mem_eq [of "vst p 0" p] K(1) by (simp add: vst_def)
  have ph: "(if 32 \<le> length p then
                case vector_loop_mem p (vst p 0) of None \<Rightarrow> None
                | Some st \<Rightarrow> if err_idx st = 1 then Some st else rewind_mem st
              else Some (vst p 0)) = Some (vector_phase p)"
    using rewind_mem_ok [of "vst p K" p K]
    by (simp add: lm vector_phase_def Let_def vst_0 [symmetric] K(1))
  have tk: "take (len (vector_phase p)) (drop (data (vector_phase p)) p) =
            drop (data (vector_phase p)) p"
    using vector_phase_span [of p] by simp
  have nm: "utf8_valid_naive_mem p (data (vector_phase p)) (len (vector_phase p)) 0 err_idx2 =
            Some (utf8_valid_naive (take (len (vector_phase p)) (drop (data (vector_phase p)) p)) err_idx2)"
    unfolding tk utf8_valid_naive_def
    using vector_phase_span [of p] by (rule naive_mem_eq)
  have b: "utf8_valid_mem p err_idx2 error_index = Some (utf8_valid p err_idx2 error_index)"
    unfolding utf8_valid_mem_def Let_def vst_0 [symmetric] ph
    by (simp add: nm utf8_valid_def Let_def split: prod.splits)
  show ?thesis using a b by blast
qed

theorem C8_no_read_outside_buffer_witness:
  "utf8_valid_mem (replicate 31 0x41 @ [0xC3, 0xA9, 0xF0, 0x90]) 0 0 = Some (False, 33) \<and>
   utf8_valid_naive_mem [0x41, 0xE2, 0x82] 0 (length [0x41, 0xE2, 0x82 :: byte]) 0 0
     = Some (False, 1) \<and>
   utf8_valid_naive_mem [0x41, 0xE2, 0x82] 0 (length [0x41, 0xE2, 0x82 :: byte] + 1) 0 0 = None"
proof -
  have a: "utf8_valid (replicate 31 0x41 @ [0xC3, 0xA9, 0xF0, 0x90]) 0 0 = (False, 33)"
    by code_simp
  have b: "utf8_valid_naive [0x41, 0xE2, 0x82] 0 = (False, 1)" by code_simp
  have c: "utf8_valid_naive_mem [0x41, 0xE2, 0x82] 0 (length [0x41, 0xE2, 0x82 :: byte] + 1) 0 0
             = None"
    by code_simp
  show ?thesis
    using a b c
      C8_no_read_outside_buffer [of "replicate 31 0x41 @ [0xC3, 0xA9, 0xF0, 0x90]" 0 0]
      C8_no_read_outside_buffer [of "[0x41, 0xE2, 0x82]" 0 0]
    by (simp only:)
qed

section \<open>The vector validator on buffers below 2 GiB\<close>

text \<open>
  While the \<^verbatim>\<open>int\<close> counter does not overflow, that is on buffers of less than \<open>2 ^ 31\<close>
  bytes, the vector validator is the scalar one: the blocks the loop accepts, less the
  bytes of the rewind, are well-formed sequences, so that the scalar validator run on the
  remainder gives the verdict and the index it gives on the whole buffer.
\<close>

lemma lane_error_num:
  "(lane_error 0 x = 0) = (x \<le> 0x7F)"
  "(lane_error 1 x = 0) = (0x80 \<le> x \<and> x \<le> 0xBF)"
  "(lane_error 2 x = 0) = (0x80 \<le> x \<and> x \<le> 0xBF)"
  "(lane_error 3 x = 0) = (0x80 \<le> x \<and> x \<le> 0xBF)"
  "(lane_error 4 x = 0) = (0xA0 \<le> x \<and> x \<le> 0xBF)"
  "(lane_error 5 x = 0) = (0x80 \<le> x \<and> x \<le> 0x9F)"
  "(lane_error 6 x = 0) = (0x90 \<le> x \<and> x \<le> 0xBF)"
  "(lane_error 7 x = 0) = (0x80 \<le> x \<and> x \<le> 0x8F)"
  "(lane_error 8 x = 0) = (0xC2 \<le> x \<and> x \<le> 0xF4)"
  "lane_error 9 x \<noteq> 0" "lane_error 10 x \<noteq> 0" "lane_error 11 x \<noteq> 0" "lane_error 12 x \<noteq> 0"
  "lane_error 13 x \<noteq> 0" "lane_error 14 x \<noteq> 0" "lane_error 15 x \<noteq> 0"
  using lane_error_eq [of 0 x] lane_error_eq [of 1 x] lane_error_eq [of 2 x] lane_error_eq [of 3 x]
    lane_error_eq [of 4 x] lane_error_eq [of 5 x] lane_error_eq [of 6 x] lane_error_eq [of 7 x]
    lane_error_eq [of 8 x]
  by (simp_all add: in_range_def lane_error_illegal)

lemma subs_u8_num:
  "subs_u8 1 1 = 0" "subs_u8 2 1 = 1" "subs_u8 3 1 = 2"
  "subs_u8 1 2 = 0" "subs_u8 2 2 = 0" "subs_u8 3 2 = 1"
  by (simp_all add: subs_u8_def)

text \<open>(i) at a sequence boundary\<close>
lemma lane_ok_boundary:
  assumes "c1 < 0xC0" and "c2 < 0xE0" and "c3 < 0xF0"
  shows "lane_ok c3 c2 c1 x = (x \<le> 0x7F \<or> (0xC2 \<le> x \<and> x \<le> 0xF4))"
  using assms
  apply (simp add: lane_ok_def lane_range_def first_len_byte_eq first_range_byte_eq
      df_ee_byte_eq ef_fe_byte_eq subs_u8_0 subs_u8_num lane_error_num)
  apply (simp add: word_less_nat_alt word_le_nat_alt byte_eq_iff)
  done

text \<open>(ii) the byte after a lead byte\<close>
lemma lane_ok_second:
  assumes "c1 < 0xC0" and "c2 < 0xE0" and "0xC2 \<le> x" and "x \<le> 0xF4"
  shows "lane_ok c2 c1 x y =
     (if x \<le> 0xDF then 0x80 \<le> y \<and> y \<le> 0xBF
      else if x = 0xE0 then 0xA0 \<le> y \<and> y \<le> 0xBF
      else if x = 0xED then 0x80 \<le> y \<and> y \<le> 0x9F
      else if x \<le> 0xEF then 0x80 \<le> y \<and> y \<le> 0xBF
      else if x = 0xF0 then 0x90 \<le> y \<and> y \<le> 0xBF
      else if x = 0xF4 then 0x80 \<le> y \<and> y \<le> 0x8F
      else 0x80 \<le> y \<and> y \<le> 0xBF)"
  using assms
  apply (simp add: lane_ok_def lane_range_def first_len_byte_eq first_range_byte_eq
      df_ee_byte_eq ef_fe_byte_eq subs_u8_0 subs_u8_num lane_error_num)
  apply (simp add: word_less_nat_alt word_le_nat_alt byte_eq_iff)
  done

text \<open>(iii) the third byte of a sequence\<close>
lemma lane_ok_third:
  assumes "c1 < 0xC0" and "0xE0 \<le> x" and "0x80 \<le> y" and "y \<le> 0xBF"
  shows "lane_ok c1 x y z = (0x80 \<le> z \<and> z \<le> 0xBF)"
  using assms
  apply (simp add: lane_ok_def lane_range_def first_len_byte_eq first_range_byte_eq
      df_ee_byte_eq ef_fe_byte_eq subs_u8_0 subs_u8_num lane_error_num)
  apply (simp add: word_less_nat_alt word_le_nat_alt byte_eq_iff)
  done

text \<open>(iv) the fourth byte of a sequence\<close>
lemma lane_ok_fourth:
  assumes "0xF0 \<le> x" and "0x80 \<le> y" and "y \<le> 0xBF" and "0x80 \<le> z" and "z \<le> 0xBF"
  shows "lane_ok x y z w = (0x80 \<le> w \<and> w \<le> 0xBF)"
  using assms
  apply (simp add: lane_ok_def lane_range_def first_len_byte_eq first_range_byte_eq
      df_ee_byte_eq ef_fe_byte_eq subs_u8_0 subs_u8_num lane_error_num)
  apply (simp add: word_less_nat_alt word_le_nat_alt byte_eq_iff)
  done

lemma la3_le: "la3 a b c \<le> 3"
  by (simp add: la3_def)

lemma trail_le: "trail c3 c2 c1 xs \<le> 3"
  by (induction xs arbitrary: c3 c2 c1) (simp_all add: la3_le)

text \<open>
  The head of a checked run that starts at a sequence boundary: a complete well-formed
  sequence that ends at a boundary again, or the whole run is a lead byte and up to two
  continuation bytes.
\<close>

lemma lanes_head:
  assumes b: "bctx c3 c2 c1" and ok: "lanes_ok c3 c2 c1 (x # xs)"
  shows "(x \<le> 0x7F \<and> bctx c2 c1 x)
       \<or> (xs = [] \<and> non_continuation x)
       \<or> (\<exists>y ys. xs = y # ys \<and> wf_sequence [x, y] \<and> bctx c1 x y)
       \<or> (\<exists>y. xs = [y] \<and> non_continuation x \<and> cont y)
       \<or> (\<exists>y z zs. xs = y # z # zs \<and> wf_sequence [x, y, z] \<and> bctx x y z)
       \<or> (\<exists>y z. xs = [y, z] \<and> non_continuation x \<and> cont y \<and> cont z)
       \<or> (\<exists>y z w ws. xs = y # z # w # ws \<and> wf_sequence [x, y, z, w] \<and> bctx y z w)"
proof -
  have c: "c1 < 0xC0" "c2 < 0xE0" "c3 < 0xF0" using b by (simp_all add: bctx_def)
  have x: "x \<le> 0x7F \<or> (0xC2 \<le> x \<and> x \<le> 0xF4)"
    using ok lane_ok_boundary [OF c] by simp
  show ?thesis
  proof (cases "x \<le> 0x7F")
    case True
    then have "bctx c2 c1 x" using c
      by (simp add: bctx_def word_less_nat_alt word_le_nat_alt)
    then show ?thesis using True by blast
  next
    case False
    then have lead: "0xC2 \<le> x" "x \<le> 0xF4" using x by simp_all
    then have ncx: "non_continuation x"
      by (simp add: non_continuation_def word_less_nat_alt word_le_nat_alt)
    show ?thesis
    proof (cases xs)
      case Nil
      then show ?thesis using ncx by blast
    next
      case (Cons y ys)
      have oky: "lane_ok c2 c1 x y" and ok2: "lanes_ok c1 x y ys"
        using ok Cons by simp_all
      note sec = oky [unfolded lane_ok_second [OF c(1) c(2) lead]]
      have cy: "0x80 \<le> y" "y \<le> 0xBF"
        using sec by (auto simp add: word_le_nat_alt split: if_splits)
      show ?thesis
      proof (cases "x \<le> 0xDF")
        case True
        then have "wf_sequence [x, y]" using lead cy by simp
        moreover have "bctx c1 x y" using True cy c
          by (simp add: bctx_def word_less_nat_alt word_le_nat_alt)
        ultimately show ?thesis using Cons by blast
      next
        case x3: False
        then have xE0: "0xE0 \<le> x" by (simp add: word_le_nat_alt)
        show ?thesis
        proof (cases ys)
          case Nil
          then show ?thesis using Cons ncx cy by (simp add: cont_def)
        next
          case (Cons z zs)
          have okz: "lane_ok c1 x y z" and ok3: "lanes_ok x y z zs"
            using ok2 Cons by simp_all
          have cz: "0x80 \<le> z" "z \<le> 0xBF"
            using okz lane_ok_third [OF c(1) xE0 cy] by simp_all
          show ?thesis
          proof (cases "x \<le> 0xEF")
            case True
            then have "wf_sequence [x, y, z]" using xE0 cy cz sec x3
              by (auto split: if_splits)
            moreover have "bctx x y z" using True cy cz
              by (simp add: bctx_def word_less_nat_alt word_le_nat_alt)
            ultimately show ?thesis using Cons \<open>xs = y # ys\<close> by blast
          next
            case x4: False
            then have xF0: "0xF0 \<le> x" by (simp add: word_le_nat_alt)
            show ?thesis
            proof (cases zs)
              case Nil
              then show ?thesis using Cons \<open>xs = y # ys\<close> ncx cy cz by (simp add: cont_def)
            next
              case (Cons w ws)
              have okw: "lane_ok x y z w" using ok3 Cons by simp
              have cw: "0x80 \<le> w" "w \<le> 0xBF"
                using okw lane_ok_fourth [OF xF0 cy cz] by simp_all
              have "wf_sequence [x, y, z, w]" using xF0 lead cy cz cw sec x3 x4
                by (auto split: if_splits)
              moreover have "bctx y z w" using cy cz cw
                by (simp add: bctx_def word_less_nat_alt word_le_nat_alt)
              ultimately show ?thesis using Cons \<open>xs = y # ys\<close> \<open>ys = z # zs\<close> by blast
            qed
          qed
        qed
      qed
    qed
  qed
qed

lemma nc_ascii: "x \<le> 0x7F \<Longrightarrow> non_continuation x"
  by (simp add: non_continuation_def word_less_nat_alt word_le_nat_alt)

lemma nc_cont: "cont y \<Longrightarrow> \<not> non_continuation y"
  by (simp add: non_continuation_def cont_def word_less_nat_alt word_le_nat_alt)

lemma wf2_shape: "wf_sequence [x, y] \<Longrightarrow> non_continuation x \<and> cont y"
  by (simp add: non_continuation_def cont_def word_less_nat_alt word_le_nat_alt)

lemma wf3_shape: "wf_sequence [x, y, z] \<Longrightarrow> non_continuation x \<and> cont y \<and> cont z"
  by (simp add: non_continuation_def cont_def word_less_nat_alt word_le_nat_alt)

lemma wf4_shape: "wf_sequence [x, y, z, w] \<Longrightarrow> cont y \<and> cont z \<and> cont w"
  by (simp add: non_continuation_def cont_def word_less_nat_alt word_le_nat_alt)

lemma boundary_nc:
  assumes "bctx c3 c2 c1" and "lane_ok c3 c2 c1 x"
  shows "non_continuation x"
proof -
  have "x \<le> 0x7F \<or> (0xC2 \<le> x \<and> x \<le> 0xF4)"
    using assms lane_ok_boundary [of c1 c2 c3 x] by (simp add: bctx_def)
  then show ?thesis
    by (auto simp add: non_continuation_def word_less_nat_alt word_le_nat_alt)
qed

lemma trail_le_length:
  assumes "bctx c3 c2 c1" and "lanes_ok c3 c2 c1 xs" and "xs \<noteq> []"
  shows "trail c3 c2 c1 xs \<le> length xs"
proof -
  obtain x xs' where xs: "xs = x # xs'" using assms(3) by (cases xs) auto
  have ncx: "non_continuation x" using assms(1,2) xs boundary_nc by simp
  show ?thesis
  proof (cases xs')
    case Nil
    then show ?thesis using xs ncx by (simp add: la3_def)
  next
    case (Cons y ys)
    show ?thesis
    proof (cases ys)
      case Nil
      then show ?thesis using xs Cons ncx by (simp add: la3_def)
    next
      case (Cons z zs)
      have "trail c3 c2 c1 xs \<le> 3" by (rule trail_le)
      then show ?thesis using xs \<open>xs' = y # ys\<close> Cons by simp
    qed
  qed
qed

lemma sound_step:
  assumes "wf_sequence q" and "well_formed (take (length rest - t) rest)" and "t \<le> length rest"
  shows "well_formed (take (length (q @ rest) - t) (q @ rest))"
proof -
  have "take (length (q @ rest) - t) (q @ rest) = q @ take (length rest - t) rest"
    using assms(3) by simp
  then show ?thesis using assms(1,2) by (simp add: well_formed.wf_append)
qed

lemma well_formed_single: "wf_sequence q \<Longrightarrow> well_formed q"
  using well_formed.wf_append [of q "[]"] by (simp add: well_formed.wf_empty)

lemma lanes_sound:
  "bctx c3 c2 c1 \<Longrightarrow> lanes_ok c3 c2 c1 xs \<Longrightarrow>
   well_formed (take (length xs - trail c3 c2 c1 xs) xs)"
proof (induction "length xs" arbitrary: c3 c2 c1 xs rule: less_induct)
  case less
  show ?case
  proof (cases xs)
    case Nil
    then show ?thesis by (simp add: well_formed.wf_empty)
  next
    case (Cons x xs')
    note h = lanes_head [OF less.prems(1) less.prems(2) [unfolded Cons]]
    have step: "\<And>q rest d3 d2 d1. xs = q @ rest \<Longrightarrow> wf_sequence q \<Longrightarrow> bctx d3 d2 d1 \<Longrightarrow>
        lanes_ok d3 d2 d1 rest \<Longrightarrow> trail c3 c2 c1 xs = trail d3 d2 d1 rest \<Longrightarrow> rest \<noteq> [] \<Longrightarrow>
        well_formed (take (length xs - trail c3 c2 c1 xs) xs)"
    proof -
      fix q rest d3 d2 d1
      assume a: "xs = q @ rest" "wf_sequence q" "bctx d3 d2 d1" "lanes_ok d3 d2 d1 rest"
        "trail c3 c2 c1 xs = trail d3 d2 d1 rest" "rest \<noteq> []"
      have "length rest < length xs" using a(1) wf_sequence_length [OF a(2)] by auto
      then have ih: "well_formed (take (length rest - trail d3 d2 d1 rest) rest)"
        using a(3,4) by (rule less.hyps)
      have le: "trail d3 d2 d1 rest \<le> length rest"
        using a(3,4,6) by (rule trail_le_length)
      have t: "trail c3 c2 c1 (q @ rest) = trail d3 d2 d1 rest" using a(5) a(1) by simp
      have "well_formed (take (length (q @ rest) - trail d3 d2 d1 rest) (q @ rest))"
        using a(2) ih le by (rule sound_step)
      then show "well_formed (take (length xs - trail c3 c2 c1 xs) xs)"
        unfolding a(1) t .
    qed
    from h show ?thesis
    proof (elim disjE conjE exE)
      assume a: "x \<le> 0x7F" "bctx c2 c1 x"
      show ?thesis
      proof (cases "xs' = []")
        case True
        then show ?thesis using Cons nc_ascii [OF a(1)]
          by (simp add: la3_def well_formed.wf_empty)
      next
        case False
        show ?thesis
        proof (rule step [of "[x]" xs' c2 c1 x])
          show "xs = [x] @ xs'" using Cons by simp
          show "wf_sequence [x]" using a(1) by simp
          show "bctx c2 c1 x" by (rule a(2))
          show "lanes_ok c2 c1 x xs'" using less.prems(2) Cons by simp
          show "trail c3 c2 c1 xs = trail c2 c1 x xs'" using Cons by simp
          show "xs' \<noteq> []" by (rule False)
        qed
      qed
    next
      assume a: "xs' = []" "non_continuation x"
      then show ?thesis using Cons by (simp add: la3_def well_formed.wf_empty)
    next
      fix y ys assume a: "xs' = y # ys" "wf_sequence [x, y]" "bctx c1 x y"
      show ?thesis
      proof (cases "ys = []")
        case True
        then show ?thesis using Cons a(1) wf2_shape [OF a(2)] nc_cont [of y]
          by (simp add: la3_def well_formed.wf_empty)
      next
        case False
        show ?thesis
        proof (rule step [of "[x, y]" ys c1 x y])
          show "xs = [x, y] @ ys" using Cons a(1) by simp
          show "wf_sequence [x, y]" by (rule a(2))
          show "bctx c1 x y" by (rule a(3))
          show "lanes_ok c1 x y ys" using less.prems(2) Cons a(1) by simp
          show "trail c3 c2 c1 xs = trail c1 x y ys" using Cons a(1) by simp
          show "ys \<noteq> []" by (rule False)
        qed
      qed
    next
      fix y assume a: "xs' = [y]" "non_continuation x" "cont y"
      then show ?thesis using Cons nc_cont [of y]
        by (simp add: la3_def well_formed.wf_empty)
    next
      fix y z zs assume a: "xs' = y # z # zs" "wf_sequence [x, y, z]" "bctx x y z"
      show ?thesis
      proof (cases "zs = []")
        case True
        then show ?thesis using Cons a(1) wf3_shape [OF a(2)] nc_cont [of y] nc_cont [of z]
          by (simp add: la3_def well_formed.wf_empty)
      next
        case False
        show ?thesis
        proof (rule step [of "[x, y, z]" zs x y z])
          show "xs = [x, y, z] @ zs" using Cons a(1) by simp
          show "wf_sequence [x, y, z]" by (rule a(2))
          show "bctx x y z" by (rule a(3))
          show "lanes_ok x y z zs" using less.prems(2) Cons a(1) by simp
          show "trail c3 c2 c1 xs = trail x y z zs" using Cons a(1) by simp
          show "zs \<noteq> []" by (rule False)
        qed
      qed
    next
      fix y z assume a: "xs' = [y, z]" "non_continuation x" "cont y" "cont z"
      then show ?thesis using Cons nc_cont [of y] nc_cont [of z]
        by (simp add: la3_def well_formed.wf_empty)
    next
      fix y z w ws assume a: "xs' = y # z # w # ws" "wf_sequence [x, y, z, w]" "bctx y z w"
      show ?thesis
      proof (cases "ws = []")
        case True
        have "well_formed [x, y, z, w]" using a(2) by (rule well_formed_single)
        then show ?thesis
          using True Cons a(1) wf4_shape [OF a(2)] nc_cont [of y] nc_cont [of z] nc_cont [of w]
          by (simp add: la3_def)
      next
        case False
        show ?thesis
        proof (rule step [of "[x, y, z, w]" ws y z w])
          show "xs = [x, y, z, w] @ ws" using Cons a(1) by simp
          show "wf_sequence [x, y, z, w]" by (rule a(2))
          show "bctx y z w" by (rule a(3))
          show "lanes_ok y z w ws" using less.prems(2) Cons a(1) by simp
          show "trail c3 c2 c1 xs = trail y z w ws" using Cons a(1) by simp
          show "ws \<noteq> []" by (rule False)
        qed
      qed
    qed
  qed
qed

lemma scast_of_nat_small:
  assumes "v < 2 ^ 31"
  shows "(scast (of_nat v :: c_int) :: size_t) = of_nat v"
proof -
  have "signed_take_bit 31 (int v) = int v"
    using assms by (intro signed_take_bit_int_eq_self) simp_all
  then show ?thesis by (simp add: signed_of_nat)
qed

lemma naive_loop_shift:
  "utf8_valid_naive_loop d acc e =
     (case utf8_valid_naive_loop d 0 e' of
        (True, r) \<Rightarrow> (True, e)
      | (False, r) \<Rightarrow> (False, acc + r))"
proof (cases "utf8_valid_naive_loop d 0 e'")
  case (Pair ok r)
  note res = naive_loop_result [OF Pair]
  show ?thesis
  proof (cases ok)
    case True
    then have "well_formed d" using res by simp
    then show ?thesis using Pair True by (simp add: naive_loop_wf)
  next
    case False
    then obtain m where m: "m < length d" "r = of_nat m" "well_formed (take m d)"
      "naive_bytes (drop m d) = 0"
      using res by auto
    have "utf8_valid_naive_loop (take m d @ drop m d) acc e =
          utf8_valid_naive_loop (drop m d) (acc + of_nat (length (take m d))) e"
      using m(3) by (rule naive_loop_wf_append)
    also have "\<dots> = (False, acc + of_nat m)"
      using m(1,4) by (subst naive_loop_unfold) (simp add: min_def)
    finally show ?thesis using Pair False m(2) by simp
  qed
qed

lemma lane_ok_at_eq: "lane_ok_at Z q = lane_ok (Z ! (q - 3)) (Z ! (q - 2)) (Z ! (q - 1)) (Z ! q)"
  by (simp add: lane_ok_at_def lane_ok_def)

lemma lanes_ok_nth:
  "lanes_ok c3 c2 c1 xs = (\<forall>i < length xs. lane_ok_at (c3 # c2 # c1 # xs) (i + 3))"
proof (induction xs arbitrary: c3 c2 c1)
  case Nil
  then show ?case by simp
next
  case (Cons x xs)
  have "(\<forall>i < length (x # xs). lane_ok_at (c3 # c2 # c1 # x # xs) (i + 3)) =
        (lane_ok_at (c3 # c2 # c1 # x # xs) 3 \<and>
         (\<forall>i < length xs. lane_ok_at (c3 # c2 # c1 # x # xs) (Suc i + 3)))"
    by (auto simp add: less_Suc_eq_0_disj)
  also have "lane_ok_at (c3 # c2 # c1 # x # xs) 3 = lane_ok c3 c2 c1 x"
    by (simp add: lane_ok_at_eq numeral_3_eq_3)
  also have "(\<forall>i < length xs. lane_ok_at (c3 # c2 # c1 # x # xs) (Suc i + 3)) =
             (\<forall>i < length xs. lane_ok_at (c2 # c1 # x # xs) (i + 3))"
    by (simp add: lane_ok_at_eq)
  finally show ?case using Cons.IH [of c2 c1 x] by simp
qed

lemma trail_last3: "trail c3 c2 c1 (ys @ [a, b, c]) = la3 a b c"
  by (induction ys arbitrary: c3 c2 c1) simp_all

lemma take_last3:
  assumes "3 \<le> N" and "N \<le> length buf"
  shows "take N buf = take (N - 3) buf @ [buf ! (N - 3), buf ! (N - 2), buf ! (N - 1)]"
proof -
  obtain M where M: "N = M + 3" using assms(1) by (metis le_add_diff_inverse2)
  have "take (Suc (Suc (Suc M))) buf = take M buf @ [buf ! M, buf ! Suc M, buf ! Suc (Suc M)]"
    using assms(2) M by (simp add: take_Suc_conv_app_nth)
  then show ?thesis using M by (simp add: numeral_3_eq_3 numeral_2_eq_2)
qed

lemma padded_ctx_nth:
  assumes "d \<le> 3" and "i < N" and "N \<le> length buf"
  shows "padded buf ! (32 + i - d) = (0 # 0 # 0 # take N buf) ! (i + 3 - d)"
proof (cases "d \<le> i")
  case True
  have a: "padded buf ! (32 + (i - d)) = buf ! (i - d)" by (simp add: padded_nth)
  have b: "(0 # 0 # 0 # take N buf) ! Suc (Suc (Suc (i - d))) = buf ! (i - d)"
    using assms(2) by simp
  have "32 + i - d = 32 + (i - d)" "i + 3 - d = Suc (Suc (Suc (i - d)))"
    using True by simp_all
  then show ?thesis using a b by (simp only:)
next
  case False
  then have "32 + i - d < 32" "i + 3 - d < 3" using assms(1) by simp_all
  then show ?thesis
    by (simp add: padded_nth nth_Cons' numeral_3_eq_3 less_Suc_eq)
qed

lemma blocks_lanes:
  assumes ok: "\<forall>j < K. block_ok buf j" and le: "32 * K \<le> length buf"
  shows "lanes_ok 0 0 0 (take (32 * K) buf)"
  unfolding lanes_ok_nth
proof (intro allI impI)
  fix i assume "i < length (take (32 * K) buf)"
  then have i: "i < 32 * K" using le by simp
  then have "i div 32 < K" by simp
  then have "block_ok buf (i div 32)" using ok by blast
  moreover have "i mod 32 < 32" by simp
  ultimately have "lane_ok_at (padded buf) (32 + 32 * (i div 32) + i mod 32)"
    unfolding block_ok_def by blast
  moreover have "32 + 32 * (i div 32) + i mod 32 = 32 + i" by simp
  ultimately have a: "lane_ok_at (padded buf) (32 + i)" by (simp only:)
  have "lane_ok_at (padded buf) (32 + i) = lane_ok_at (0 # 0 # 0 # take (32 * K) buf) (i + 3)"
    unfolding lane_ok_at_eq
    using padded_ctx_nth [of 3 i "32 * K" buf] padded_ctx_nth [of 2 i "32 * K" buf]
      padded_ctx_nth [of 1 i "32 * K" buf] padded_ctx_nth [of 0 i "32 * K" buf] i le
    by simp
  then show "lane_ok_at (0 # 0 # 0 # take (32 * K) buf) (i + 3)" using a by simp
qed

lemma accepted_prefix_well_formed:
  assumes ok: "\<forall>j < K. block_ok buf j" and le: "32 * K \<le> length buf" and K1: "1 \<le> K"
  shows "well_formed
           (take (32 * K - lookahead_bytes (take 32 (drop (32 * K - 32) buf))) buf)"
proof -
  let ?N = "32 * K"
  let ?prev = "take 32 (drop (?N - 32) buf)"
  have N3: "3 \<le> ?N" using K1 by simp
  have b: "bctx 0 0 0" by (simp add: bctx_def)
  have l: "length (take ?N buf) = ?N" using le by simp
  have tt: "\<And>t. take (?N - t) (take ?N buf) = take (?N - t) buf" by simp
  have "well_formed (take (length (take ?N buf) - trail 0 0 0 (take ?N buf)) (take ?N buf))"
    using b blocks_lanes [OF ok le] by (rule lanes_sound)
  then have "well_formed (take (?N - trail 0 0 0 (take ?N buf)) buf)"
    unfolding l tt .
  moreover have "trail 0 0 0 (take ?N buf) =
      la3 (buf ! (?N - 3)) (buf ! (?N - 2)) (buf ! (?N - 1))"
    by (subst take_last3 [OF N3 le]) (rule trail_last3)
  moreover have "la3 (buf ! (?N - 3)) (buf ! (?N - 2)) (buf ! (?N - 1)) = lookahead_bytes ?prev"
  proof -
    have "\<And>k. 1 \<le> k \<Longrightarrow> k \<le> 3 \<Longrightarrow> ?prev ! (32 - k) = buf ! (?N - k)"
      using K1 le by simp
    from this [of 1] this [of 2] this [of 3] show ?thesis
      by (simp add: la3_def lookahead_bytes_def)
  qed
  ultimately show ?thesis by (simp only:)
qed

lemma vector_phase_K:
  assumes st: "vector_loop buf (vst buf 0) = vst buf K" and K1: "1 \<le> K"
    and le: "32 * K \<le> length buf" and bound: "length buf < 2 ^ 32"
  shows "data (vector_phase buf) = 32 * K - lookahead_bytes (take 32 (drop (32 * K - 32) buf)) \<and>
         len (vector_phase buf) =
           length buf - 32 * K + lookahead_bytes (take 32 (drop (32 * K - 32) buf)) \<and>
         err_idx (vector_phase buf) =
           of_nat (Suc (32 * K - lookahead_bytes (take 32 (drop (32 * K - 32) buf))))"
proof -
  let ?prev = "take 32 (drop (32 * K - 32) buf)"
  have ne: "err_idx (vst buf K) \<noteq> 1"
    using err_idx_not_sentinel [OF K1] le bound by (simp add: vst_def)
  have p: "prev_input (vst buf K) = ?prev" using K1 by (simp add: vst_def padded_def)
  have ge: "32 \<le> length buf" using K1 le by simp
  have la: "lookahead_bytes ?prev \<le> 32 * K"
    using lookahead_bytes_le [of ?prev] K1 by simp
  have e: "(1 + 32 * of_nat K - of_nat (lookahead_bytes ?prev) :: c_int) =
           of_nat (Suc (32 * K - lookahead_bytes ?prev))"
    using la by simp
  show ?thesis
    using ge ne
    apply (simp add: vector_phase_def Let_def vst_0 [symmetric] st rewind_def unat_lookahead p)
    apply (simp add: lookahead_of_bytes p)
    apply (simp add: vst_def e)
    done
qed

lemma utf8_valid_eq_naive_small:
  assumes bound: "length buf < 2 ^ 31"
  shows "utf8_valid buf err_idx2 error_index = utf8_valid_naive buf error_index"
proof -
  obtain K where K: "vector_loop buf (vst buf 0) = vst buf K"
    "\<forall>j. j < K \<longrightarrow> 32 * (j + 1) \<le> length buf \<and> block_ok buf j"
    using vector_loop_from [of 0 buf] by auto
  show ?thesis
  proof (cases "32 \<le> length buf \<and> 1 \<le> K")
    case False
    have vp: "vector_phase buf = vst buf 0"
    proof (cases "32 \<le> length buf")
      case False
      then show ?thesis by (simp add: vector_phase_def Let_def vst_0)
    next
      case True
      then have "K = 0" using \<open>\<not> (32 \<le> length buf \<and> 1 \<le> K)\<close> by simp
      then have "vector_loop buf (vst buf 0) = vst buf 0" using K(1) by simp
      then show ?thesis
        by (simp add: vector_phase_def Let_def vst_0 [symmetric]) (simp add: vst_def)
    qed
    have d0: "take (len (vst buf 0)) (drop (data (vst buf 0)) buf) = buf"
      by (simp add: vst_def)
    have e0: "err_idx (vst buf 0) = 1" by (simp add: vst_def)
    show ?thesis
      using naive_loop_shift [of buf 0 error_index err_idx2]
      by (cases "utf8_valid_naive_loop buf 0 err_idx2")
         (simp add: utf8_valid_def Let_def vp d0 e0 utf8_valid_naive_def)
  next
    case True
    then have K1: "1 \<le> K" by simp
    then have "K - 1 < K" by simp
    then have le: "32 * K \<le> length buf" using K(2) K1 by (metis le_add_diff_inverse2)
    have ok: "\<forall>j < K. block_ok buf j" using K(2) by blast
    define m where "m = 32 * K - lookahead_bytes (take 32 (drop (32 * K - 32) buf))"
    have b32: "length buf < 2 ^ 32" using bound by simp
    note vp = vector_phase_K [OF K(1) K1 le b32, folded m_def]
    have wf: "well_formed (take m buf)"
      unfolding m_def using ok le K1 by (rule accepted_prefix_well_formed)
    have mle: "m \<le> 32 * K" by (simp add: m_def)
    have len: "len (vector_phase buf) = length buf - m"
      using vp lookahead_bytes_le [of "take 32 (drop (32 * K - 32) buf)"] K1 le
      by (simp add: m_def)
    have small: "Suc m < 2 ^ 31" using mle le bound by simp arith
    have sc: "(scast (err_idx (vector_phase buf)) :: size_t) - 1 = of_nat m"
      using vp scast_of_nat_small [OF small] by simp
    have mn: "length (take m buf) = m" using mle le by simp
    have "utf8_valid_naive_loop (take m buf @ drop m buf) 0 error_index =
          utf8_valid_naive_loop (drop m buf) (0 + of_nat (length (take m buf))) error_index"
      using wf by (rule naive_loop_wf_append)
    then have nv: "utf8_valid_naive buf error_index =
          utf8_valid_naive_loop (drop m buf) (of_nat m) error_index"
      unfolding mn by (simp add: utf8_valid_naive_def)
    have sc': "\<And>r :: size_t. scast (err_idx (vector_phase buf)) + r - 1 = of_nat m + r"
      using sc by (simp add: algebra_simps)
    have dt: "take (len (vector_phase buf)) (drop (data (vector_phase buf)) buf) = drop m buf"
      using vp len by simp
    show ?thesis
      unfolding nv
      using naive_loop_shift [of "drop m buf" "of_nat m" error_index err_idx2]
      by (cases "utf8_valid_naive_loop (drop m buf) 0 err_idx2")
         (simp add: utf8_valid_def Let_def dt utf8_valid_naive_def sc')
  qed
qed

lemma naive_first_malformed:
  assumes "utf8_valid_naive s e = (False, r)" and "length s < 2 ^ 64"
  shows "first_malformed s (unat r)"
proof -
  have "utf8_valid_naive_loop s 0 e = (False, r)" using assms(1) by (simp add: utf8_valid_naive_def)
  from naive_loop_result [OF this]
  obtain m where m: "m < length s" "r = of_nat m" "well_formed (take m s)"
    "naive_bytes (drop m s) = 0"
    by auto
  have "unat r = m" using m(1,2) assms(2) by (simp add: unat_of_nat)
  moreover have "\<forall>k. \<not> wf_sequence (take k (drop m s))"
    using m(4) naive_bytes_zero by blast
  ultimately show ?thesis using m(1,3) by (simp add: first_malformed_def)
qed

lemma utf8_valid_first_malformed_small:
  assumes "utf8_valid s err_idx2 e = (False, r)" and "length s < 2 ^ 31"
  shows "first_malformed s (unat r)"
proof -
  have "utf8_valid_naive s e = (False, r)"
    using assms utf8_valid_eq_naive_small [of s err_idx2 e] by simp
  moreover have "length s < 2 ^ 64" using assms(2) by simp
  ultimately show ?thesis by (rule naive_first_malformed)
qed

lemma utf8_valid_well_formed_small:
  assumes "length s < 2 ^ 31"
  shows "fst (utf8_valid s err_idx2 e) = well_formed s"
proof -
  have "fst (utf8_valid_naive s e) = well_formed s"
  proof
    assume "fst (utf8_valid_naive s e)"
    then obtain r where "utf8_valid_naive_loop s 0 e = (True, r)"
      by (cases "utf8_valid_naive_loop s 0 e") (simp add: utf8_valid_naive_def)
    from naive_loop_result [OF this] show "well_formed s" by simp
  next
    assume "well_formed s"
    then show "fst (utf8_valid_naive s e)" by (simp add: utf8_valid_naive_def naive_loop_wf)
  qed
  then show ?thesis using utf8_valid_eq_naive_small [OF assms, of err_idx2 e] by simp
qed

lemma utf8_valid_concat_small:
  assumes "length (a @ b) < 2 ^ 31"
    and "fst (utf8_valid a j e)" and "fst (utf8_valid b j e)"
  shows "fst (utf8_valid (a @ b) j e)"
proof -
  have "length a < 2 ^ 31" "length b < 2 ^ 31" using assms(1) by simp_all
  then have "well_formed a" "well_formed b"
    using assms(2,3) utf8_valid_well_formed_small by blast+
  then have "well_formed (a @ b)" by (rule well_formed_append)
  then show ?thesis using utf8_valid_well_formed_small [OF assms(1)] by blast
qed

lemma err_idx_small:
  assumes "length buf < 2 ^ 31"
  shows "\<exists>K. vector_loop buf (vst buf 0) = vst buf K \<and> 32 * K \<le> length buf \<and>
             sint (err_idx (vst buf K)) = 1 + 32 * int K"
proof -
  obtain K where K: "vector_loop buf (vst buf 0) = vst buf K" "32 * K \<le> length buf"
    using vector_loop_shape by blast
  have "Suc (32 * K) < 2 ^ 31" using K(2) assms by simp arith
  then have "signed_take_bit 31 (int (Suc (32 * K))) = int (Suc (32 * K))"
    by (intro signed_take_bit_int_eq_self) simp_all
  then have "sint (of_nat (Suc (32 * K)) :: c_int) = int (Suc (32 * K))"
    unfolding signed_of_nat by simp
  then have "sint (err_idx (vst buf K)) = 1 + 32 * int K" by (simp add: vst_def)
  then show ?thesis using K by blast
qed

end
